theory Spec2Isabelle
  imports Main "HOL-Library.Word"
begin

unbundle bit_operations_syntax

section \<open>The proxy cache (src/Proxy/cache.c, src/Proxy/cache.h)\<close>

text \<open>
  The cache is a doubly linked list of blocks hanging off \<open>root\<close>, most recently used
  block first.  The list of blocks is modelled as a HOL list in list order (the head of the
  list is the block \<open>root\<close> points to, the last element is the block whose
  \<open>next_cache_block\<close> is \<open>NULL\<close>); a block pointer is the position of the block in that
  list and \<open>NULL\<close> is \<open>None\<close>.  The C type \<open>int\<close> is a 32-bit word read with \<open>sint\<close>,
  \<open>unsigned int\<close> a 32-bit word read with \<open>unat\<close>; mixed comparisons and compound
  assignments convert the \<open>int\<close> operand to \<open>unsigned int\<close>, as C does.
\<close>

type_synonym byte = "8 word"

datatype cache_error = Blocked | NullDeref | BufferOverrun

record cache_block =
  payload_size :: "32 word"
  host :: string
  uri :: string
  payload :: "byte list"

record proxy_cache =
  space :: "32 word"
  max_object_size :: "32 word"
  root :: "cache_block list"
  readcnt :: "32 word"
  mutex_read :: nat
  mutex_write :: nat

text \<open>
  \<open>P\<close> and \<open>V\<close> on a semaphore, run by a single thread: \<open>P\<close> on a semaphore that is 0
  never returns.
\<close>

definition sem_P :: "nat \<Rightarrow> cache_error + nat" where
  "sem_P s = (if s = 0 then Inl Blocked else Inr (s - 1))"

definition sem_V :: "nat \<Rightarrow> nat" where
  "sem_V s = s + 1"

text \<open>
  \<open>Malloc\<close> is not part of the sources; the code tests its result against \<open>NULL\<close>, so
  whether the \<open>k\<close>-th allocation of a call succeeds is a parameter \<open>avail k\<close>.
\<close>

definition init_cache :: "bool \<Rightarrow> 32 word \<Rightarrow> 32 word \<Rightarrow> proxy_cache option" where
  "init_cache avail max_cache_size input_max_object_size =
     (if \<not> avail then None
      else Some \<lparr>space = max_cache_size, max_object_size = input_max_object_size,
                 root = [], readcnt = 0, mutex_read = 1, mutex_write = 1\<rparr>)"

text \<open>
  \<open>memcpy\<close> of \<open>n\<close> bytes out of (or into) a caller's buffer of the given contents; a
  buffer shorter than \<open>n\<close> is read (written) past its end.
\<close>

definition memcpy_from :: "byte list \<Rightarrow> nat \<Rightarrow> cache_error + byte list" where
  "memcpy_from buffer n = (if length buffer < n then Inl BufferOverrun else Inr (take n buffer))"

definition memcpy_into :: "byte list \<Rightarrow> byte list \<Rightarrow> nat \<Rightarrow> cache_error + byte list" where
  "memcpy_into buffer src n =
     (if length buffer < n \<or> length src < n then Inl BufferOverrun
      else Inr (take n src @ drop n buffer))"

text \<open>The \<open>int\<close> size converted to \<open>size_t\<close> (sign extension to 64 bits).\<close>

definition size_t_of_int :: "32 word \<Rightarrow> nat" where
  "size_t_of_int n = unat (scast n :: 64 word)"

definition create_block ::
  "(nat \<Rightarrow> bool) \<Rightarrow> string \<Rightarrow> string \<Rightarrow> byte list \<Rightarrow> 32 word \<Rightarrow> cache_error + cache_block option"
where
  "create_block avail input_host input_uri buffer sz =
     (if \<not> avail 0 then Inr None
      else if \<not> avail 1 \<or> \<not> avail 2 then Inr None
      else if \<not> avail 3 then Inr None
      else (case memcpy_from buffer (size_t_of_int sz) of
              Inl e \<Rightarrow> Inl e
            | Inr bytes \<Rightarrow>
                Inr (Some \<lparr>payload_size = sz, host = input_host, uri = input_uri,
                           payload = bytes\<rparr>)))"

definition insert_block :: "proxy_cache \<Rightarrow> cache_block \<Rightarrow> proxy_cache" where
  "insert_block my_cache b =
     my_cache\<lparr>root := b # root my_cache, space := space my_cache - payload_size b\<rparr>"

definition remove_block :: "proxy_cache \<Rightarrow> nat option \<Rightarrow> cache_error + proxy_cache" where
  "remove_block my_cache block_ptr =
     (case block_ptr of
        None \<Rightarrow> Inl NullDeref
      | Some i \<Rightarrow>
          Inr (my_cache\<lparr>root := take i (root my_cache) @ drop (Suc i) (root my_cache),
                        space := space my_cache + payload_size (root my_cache ! i)\<rparr>))"

fun search_from :: "cache_block list \<Rightarrow> nat \<Rightarrow> string \<Rightarrow> string \<Rightarrow> nat option" where
  "search_from [] i input_host input_uri = None"
| "search_from (b # bs) i input_host input_uri =
     (if host b = input_host \<and> uri b = input_uri then Some i
      else search_from bs (Suc i) input_host input_uri)"

definition search_block :: "proxy_cache \<Rightarrow> string \<Rightarrow> string \<Rightarrow> nat option" where
  "search_block my_cache input_host input_uri = search_from (root my_cache) 0 input_host input_uri"

definition read_cache_block ::
  "cache_block list \<Rightarrow> nat option \<Rightarrow> byte list \<Rightarrow> cache_error + (32 word \<times> byte list)"
where
  "read_cache_block blocks block_ptr buffer =
     (case block_ptr of
        None \<Rightarrow> Inr (- 1, buffer)
      | Some i \<Rightarrow>
          (case memcpy_into buffer (payload (blocks ! i)) (size_t_of_int (payload_size (blocks ! i))) of
             Inl e \<Rightarrow> Inl e
           | Inr buffer' \<Rightarrow> Inr (payload_size (blocks ! i), buffer')))"

definition lru_update :: "proxy_cache \<Rightarrow> nat \<Rightarrow> cache_error + proxy_cache" where
  "lru_update my_cache i =
     (case sem_P (mutex_write my_cache) of
        Inl e \<Rightarrow> Inl e
      | Inr w \<Rightarrow>
          (case remove_block (my_cache\<lparr>mutex_write := w\<rparr>) (Some i) of
             Inl e \<Rightarrow> Inl e
           | Inr c \<Rightarrow>
               (let c' = insert_block c (root my_cache ! i)
                in Inr (c'\<lparr>mutex_write := sem_V (mutex_write c')\<rparr>))))"

fun walk_to_last :: "cache_block list \<Rightarrow> nat \<Rightarrow> nat" where
  "walk_to_last [] i = i"
| "walk_to_last [b] i = i"
| "walk_to_last (b # b' # bs) i = walk_to_last (b' # bs) (Suc i)"

definition get_lru :: "proxy_cache \<Rightarrow> nat option" where
  "get_lru my_cache = (if root my_cache = [] then None else Some (walk_to_last (root my_cache) 0))"

definition eviction :: "proxy_cache \<Rightarrow> cache_error + proxy_cache" where
  "eviction my_cache = remove_block my_cache (get_lru my_cache)"

text \<open>The reader entry and exit protocol around the search and the copy.\<close>

definition reader_enter :: "proxy_cache \<Rightarrow> cache_error + proxy_cache" where
  "reader_enter my_cache =
     (case sem_P (mutex_read my_cache) of
        Inl e \<Rightarrow> Inl e
      | Inr m \<Rightarrow>
          (let c = my_cache\<lparr>mutex_read := m, readcnt := readcnt my_cache + 1\<rparr>
           in if readcnt c = 1
              then (case sem_P (mutex_write c) of
                      Inl e \<Rightarrow> Inl e
                    | Inr w \<Rightarrow> Inr (c\<lparr>mutex_write := w, mutex_read := sem_V (mutex_read c)\<rparr>))
              else Inr (c\<lparr>mutex_read := sem_V (mutex_read c)\<rparr>)))"

definition reader_exit :: "proxy_cache \<Rightarrow> cache_error + proxy_cache" where
  "reader_exit my_cache =
     (case sem_P (mutex_read my_cache) of
        Inl e \<Rightarrow> Inl e
      | Inr m \<Rightarrow>
          (let c = my_cache\<lparr>mutex_read := m, readcnt := readcnt my_cache - 1\<rparr>
           in if readcnt c = 0
              then Inr (c\<lparr>mutex_write := sem_V (mutex_write c), mutex_read := sem_V (mutex_read c)\<rparr>)
              else Inr (c\<lparr>mutex_read := sem_V (mutex_read c)\<rparr>)))"

definition read_cache ::
  "proxy_cache option \<Rightarrow> string \<Rightarrow> string \<Rightarrow> byte list
     \<Rightarrow> cache_error + (32 word \<times> proxy_cache option \<times> byte list)"
where
  "read_cache my_cache input_host input_uri buffer =
     (case my_cache of
        None \<Rightarrow> Inr (- 1, None, buffer)
      | Some c0 \<Rightarrow>
          (case reader_enter c0 of
             Inl e \<Rightarrow> Inl e
           | Inr c1 \<Rightarrow>
               (case search_block c1 input_host input_uri of
                  None \<Rightarrow>
                    (case reader_exit c1 of
                       Inl e \<Rightarrow> Inl e
                     | Inr c2 \<Rightarrow> Inr (- 1, Some c2, buffer))
                | Some i \<Rightarrow>
                    (case read_cache_block (root c1) (Some i) buffer of
                       Inl e \<Rightarrow> Inl e
                     | Inr (read_len, buffer') \<Rightarrow>
                         (case reader_exit c1 of
                            Inl e \<Rightarrow> Inl e
                          | Inr c2 \<Rightarrow>
                              (case lru_update c2 i of
                                 Inl e \<Rightarrow> Inl e
                               | Inr c3 \<Rightarrow> Inr (read_len, Some c3, buffer')))))))"

function evict_loop :: "proxy_cache \<Rightarrow> 32 word \<Rightarrow> cache_error + proxy_cache" where
  "evict_loop my_cache len =
     (if space my_cache < len
      then (case eviction my_cache of
              Inl e \<Rightarrow> Inl e
            | Inr c \<Rightarrow> evict_loop c len)
      else Inr my_cache)"
  by pat_completeness auto
termination
proof (relation "measure (\<lambda>(c, len). length (root c))")
  show "wf (measure (\<lambda>(c, len). length (root c)))" by simp
next
  fix my_cache :: proxy_cache and len :: "32 word" and c :: proxy_cache
  assume ev: "eviction my_cache = Inr c"
  have walk: "\<And>bs i. bs \<noteq> [] \<Longrightarrow> walk_to_last bs i < i + length bs"
  proof -
    fix bs :: "cache_block list" and i :: nat
    show "bs \<noteq> [] \<Longrightarrow> walk_to_last bs i < i + length bs"
      by (induction bs i rule: walk_to_last.induct) auto
  qed
  from ev have ne: "root my_cache \<noteq> []"
    by (auto simp: eviction_def get_lru_def remove_block_def split: if_splits)
  from walk[OF ne, of 0] ev ne have "length (root c) < length (root my_cache)"
    by (auto simp: eviction_def get_lru_def remove_block_def)
  then show "((c, len), (my_cache, len)) \<in> measure (\<lambda>(c, len). length (root c))" by simp
qed

declare evict_loop.simps [simp del]

definition write_cache ::
  "(nat \<Rightarrow> bool) \<Rightarrow> proxy_cache option \<Rightarrow> string \<Rightarrow> string \<Rightarrow> byte list \<Rightarrow> 32 word
     \<Rightarrow> cache_error + (32 word \<times> proxy_cache option)"
where
  "write_cache avail my_cache input_host input_uri buffer len =
     (case my_cache of
        None \<Rightarrow> Inr (- 1, None)
      | Some c0 \<Rightarrow>
          if len > max_object_size c0 then Inr (- 1, Some c0)
          else
            (case sem_P (mutex_write c0) of
               Inl e \<Rightarrow> Inl e
             | Inr w \<Rightarrow>
                 (case evict_loop (c0\<lparr>mutex_write := w\<rparr>) len of
                    Inl e \<Rightarrow> Inl e
                  | Inr c1 \<Rightarrow>
                      (case create_block avail input_host input_uri buffer len of
                         Inl e \<Rightarrow> Inl e
                       | Inr None \<Rightarrow> Inr (- 1, Some (c1\<lparr>mutex_write := sem_V (mutex_write c1)\<rparr>))
                       | Inr (Some b) \<Rightarrow>
                           (let c2 = insert_block c1 b
                            in Inr (1, Some (c2\<lparr>mutex_write := sem_V (mutex_write c2)\<rparr>)))))))"

text \<open>A sequence of calls of the public interface on one cache handle.\<close>

datatype cache_call =
    Read_call string string "byte list"
  | Write_call "nat \<Rightarrow> bool" string string "byte list" "32 word"

fun run_call :: "proxy_cache option \<Rightarrow> cache_call \<Rightarrow> cache_error + proxy_cache option" where
  "run_call my_cache (Read_call h u buffer) =
     (case read_cache my_cache h u buffer of
        Inl e \<Rightarrow> Inl e
      | Inr (r, my_cache', buffer') \<Rightarrow> Inr my_cache')"
| "run_call my_cache (Write_call avail h u buffer len) =
     (case write_cache avail my_cache h u buffer len of
        Inl e \<Rightarrow> Inl e
      | Inr (r, my_cache') \<Rightarrow> Inr my_cache')"

fun run_calls :: "proxy_cache option \<Rightarrow> cache_call list \<Rightarrow> cache_error + proxy_cache option" where
  "run_calls my_cache [] = Inr my_cache"
| "run_calls my_cache (call # calls) =
     (case run_call my_cache call of
        Inl e \<Rightarrow> Inl e
      | Inr my_cache' \<Rightarrow> run_calls my_cache' calls)"

subsection \<open>Predicates used to state the properties of the cache\<close>

text \<open>
  The accounting equation of the cache for a cache created with capacity \<open>m\<close>, in the
  arithmetic of \<open>unsigned int\<close>.
\<close>

definition accounting :: "32 word \<Rightarrow> proxy_cache \<Rightarrow> bool" where
  "accounting m c = (space c = m - sum_list (map payload_size (root c)))"

text \<open>
  The same equation over the natural numbers: the bytes accounted as free and the bytes
  held by the blocks of the list add up to the capacity, with no wrap-around.
\<close>

definition stored_bytes :: "proxy_cache \<Rightarrow> nat" where
  "stored_bytes c = sum_list (map (\<lambda>b. unat (payload_size b)) (root c))"

definition accounting_exact :: "32 word \<Rightarrow> proxy_cache \<Rightarrow> bool" where
  "accounting_exact m c = (unat (space c) + stored_bytes c = unat m)"

text \<open>
  A quiescent cache: no call is in progress, so no reader is registered and both
  semaphores are free.
\<close>

definition quiescent :: "proxy_cache \<Rightarrow> bool" where
  "quiescent c = (readcnt c = 0 \<and> mutex_read c = 1 \<and> mutex_write c = 1)"


text \<open>An allocation oracle under which every \<open>Malloc\<close> succeeds.\<close>

definition all_available :: "nat \<Rightarrow> bool" where
  "all_available k = True"

text \<open>An allocation oracle under which only the \<open>Malloc\<close> of the payload fails.\<close>

definition payload_unavailable :: "nat \<Rightarrow> bool" where
  "payload_unavailable k = (k \<noteq> 3)"

definition keys_of :: "proxy_cache \<Rightarrow> (string \<times> string) list" where
  "keys_of c = map (\<lambda>b. (host b, uri b)) (root c)"

definition first_with_key :: "string \<Rightarrow> string \<Rightarrow> proxy_cache \<Rightarrow> cache_block option" where
  "first_with_key h u c = List.find (\<lambda>b. host b = h \<and> uri b = u) (root c)"

definition is_write_to :: "string \<Rightarrow> string \<Rightarrow> cache_call \<Rightarrow> bool" where
  "is_write_to h u call =
     (case call of Write_call avail h' u' buffer len \<Rightarrow> h' = h \<and> u' = u | Read_call h' u' buffer \<Rightarrow> False)"

text \<open>
  \<open>fresh_writes\<close> holds of a sequence of calls when every \<open>write_cache\<close> in it is issued
  for a key that is absent from the cache at the time of the call.  The proxy writes a key
  only after its own \<open>read_cache\<close> of that key has missed, which gives this condition as
  long as no other connection writes the same key between that miss and the write.
\<close>

fun fresh_writes :: "proxy_cache option \<Rightarrow> cache_call list \<Rightarrow> bool" where
  "fresh_writes my_cache [] = True"
| "fresh_writes my_cache (call # calls) =
     ((case (my_cache, call) of
         (Some c, Write_call avail h u buffer len) \<Rightarrow> search_block c h u = None
       | _ \<Rightarrow> True) \<and>
      (case run_call my_cache call of
         Inl e \<Rightarrow> True
       | Inr my_cache' \<Rightarrow> fresh_writes my_cache' calls))"


section \<open>The allocator (src/Malloc/mm.c)\<close>

text \<open>
  The heap is a byte-addressed memory.  An address (a \<open>char *\<close>) is a natural number and
  \<open>NULL\<close> is 0; pointer arithmetic is arithmetic on addresses.  \<open>size_t\<close> is a 64-bit
  word and \<open>unsigned int\<close> a 32-bit word, both with the wrap-around of C.  A word of 4 or
  8 bytes is stored with its least significant byte first.
\<close>

record mm_state =
  mem :: "nat \<Rightarrow> byte"
  mem_start_brk :: nat
  mem_brk :: nat
  mem_max_addr :: nat
  heap_listp :: nat
  origin :: nat

definition store_bytes :: "(nat \<Rightarrow> byte) \<Rightarrow> nat \<Rightarrow> nat \<Rightarrow> 64 word \<Rightarrow> nat \<Rightarrow> byte" where
  "store_bytes m p n v a =
     (if p \<le> a \<and> a < p + n then ucast (drop_bit (8 * (a - p)) v) else m a)"

definition GETW :: "mm_state \<Rightarrow> nat \<Rightarrow> 32 word" where
  "GETW s p =
     ucast (mem s p) OR push_bit 8 (ucast (mem s (p + 1))) OR push_bit 16 (ucast (mem s (p + 2)))
       OR push_bit 24 (ucast (mem s (p + 3)))"

definition PUTW :: "mm_state \<Rightarrow> nat \<Rightarrow> 64 word \<Rightarrow> mm_state" where
  "PUTW s p val = s\<lparr>mem := store_bytes (mem s) p 4 val\<rparr>"

definition GETD :: "mm_state \<Rightarrow> nat \<Rightarrow> 64 word" where
  "GETD s p =
     ucast (mem s p) OR push_bit 8 (ucast (mem s (p + 1))) OR push_bit 16 (ucast (mem s (p + 2)))
       OR push_bit 24 (ucast (mem s (p + 3))) OR push_bit 32 (ucast (mem s (p + 4)))
       OR push_bit 40 (ucast (mem s (p + 5))) OR push_bit 48 (ucast (mem s (p + 6)))
       OR push_bit 56 (ucast (mem s (p + 7)))"

definition PUTD :: "mm_state \<Rightarrow> nat \<Rightarrow> 64 word \<Rightarrow> mm_state" where
  "PUTD s p val = s\<lparr>mem := store_bytes (mem s) p 8 val\<rparr>"

definition ALIGN :: "64 word \<Rightarrow> 64 word" where
  "ALIGN p = (p + 7) AND NOT 7"

definition PACK :: "64 word \<Rightarrow> 64 word \<Rightarrow> 64 word" where
  "PACK sz alloc = sz OR alloc"

definition GET_SIZE :: "mm_state \<Rightarrow> nat \<Rightarrow> 32 word" where
  "GET_SIZE s p = GETW s p AND NOT 7"

definition GET_ALLOC :: "mm_state \<Rightarrow> nat \<Rightarrow> 32 word" where
  "GET_ALLOC s p = GETW s p AND 1"

definition HDRP :: "nat \<Rightarrow> nat" where
  "HDRP bp = bp - 4"

definition FTRP :: "mm_state \<Rightarrow> nat \<Rightarrow> nat" where
  "FTRP s bp = bp + unat (GET_SIZE s (HDRP bp)) - 8"

definition NEXT_BLKP :: "mm_state \<Rightarrow> nat \<Rightarrow> nat" where
  "NEXT_BLKP s bp = bp + unat (GET_SIZE s (bp - 4))"

definition PREV_BLKP :: "mm_state \<Rightarrow> nat \<Rightarrow> nat" where
  "PREV_BLKP s bp = bp - unat (GET_SIZE s (bp - 8))"

definition NEXT_FREE_BLKP :: "mm_state \<Rightarrow> nat \<Rightarrow> nat" where
  "NEXT_FREE_BLKP s bp = unat (GETD s (bp + 8))"

definition PREV_FREE_BLKP :: "mm_state \<Rightarrow> nat \<Rightarrow> nat" where
  "PREV_FREE_BLKP s bp = unat (GETD s bp)"

definition SET_NEXT_FREE_BLKP :: "mm_state \<Rightarrow> nat \<Rightarrow> nat \<Rightarrow> mm_state" where
  "SET_NEXT_FREE_BLKP s bp n_bp = PUTD s (bp + 8) (word_of_nat n_bp)"

definition SET_PREV_FREE_BLKP :: "mm_state \<Rightarrow> nat \<Rightarrow> nat \<Rightarrow> mm_state" where
  "SET_PREV_FREE_BLKP s bp p_bp = PUTD s bp (word_of_nat p_bp)"

definition LIST :: "mm_state \<Rightarrow> int \<Rightarrow> nat" where
  "LIST s list = nat (int (origin s) + (list - 1) * 8)"

definition GET_LISTP :: "mm_state \<Rightarrow> int \<Rightarrow> nat" where
  "GET_LISTP s list = unat (GETD s (LIST s list))"

definition SET_LISTP :: "mm_state \<Rightarrow> int \<Rightarrow> nat \<Rightarrow> mm_state" where
  "SET_LISTP s list bp = PUTD s (LIST s list) (word_of_nat bp)"

text \<open>
  Modelled from the spec: \<open>memlib.c\<close> (\<open>mem_sbrk\<close>, \<open>mem_heap_lo\<close>, \<open>mem_heap_hi\<close>) is
  not among the sources.  The spec's heap substrate has \<open>grow(bytes)\<close>, which extends the
  heap by exactly \<open>bytes\<close> and returns the address of the first new byte, or a sentinel
  when the heap cannot grow, and \<open>bounds()\<close>.  The sentinel is the \<open>(void *)-1\<close> that
  \<open>extend_heap\<close> tests for; the heap cannot grow past \<open>mem_max_addr\<close>.
\<close>

definition mem_sbrk :: "mm_state \<Rightarrow> 64 word \<Rightarrow> mm_state \<times> nat" where
  "mem_sbrk s incr =
     (if mem_brk s + unat incr > mem_max_addr s then (s, 2 ^ 64 - 1)
      else (s\<lparr>mem_brk := mem_brk s + unat incr\<rparr>, mem_brk s))"

definition mem_heap_lo :: "mm_state \<Rightarrow> nat" where
  "mem_heap_lo s = mem_start_brk s"

definition mem_heap_hi :: "mm_state \<Rightarrow> nat" where
  "mem_heap_hi s = mem_brk s - 1"

definition get_list_index :: "64 word \<Rightarrow> int" where
  "get_list_index a_size =
     (if a_size = 0 then 0
      else if a_size \<le> 32 then 1
      else if a_size \<le> 64 then 2
      else if a_size \<le> 128 then 3
      else if a_size \<le> 256 then 4
      else if a_size \<le> 512 then 5
      else if a_size \<le> 1024 then 6
      else if a_size \<le> 2048 then 7
      else if a_size \<le> 4096 then 8
      else if a_size \<le> 8192 then 9
      else if a_size \<le> 16384 then 10
      else if a_size \<le> 32768 then 11
      else if a_size \<le> 65536 then 12
      else 13)"

definition insert_free_block :: "mm_state \<Rightarrow> nat \<Rightarrow> mm_state" where
  "insert_free_block s bp =
     (let csize = (ucast (GET_SIZE s (HDRP bp)) :: 64 word);
          list_index = get_list_index csize
      in if GET_LISTP s list_index = 0
         then (let s1 = SET_LISTP s list_index bp;
                   s2 = SET_NEXT_FREE_BLKP s1 bp 0
               in SET_PREV_FREE_BLKP s2 bp 0)
         else (let s1 = SET_PREV_FREE_BLKP s bp 0;
                   s2 = SET_NEXT_FREE_BLKP s1 bp (GET_LISTP s1 list_index);
                   s3 = SET_PREV_FREE_BLKP s2 (GET_LISTP s2 list_index) bp
               in SET_LISTP s3 list_index bp))"

definition remove_free_block :: "mm_state \<Rightarrow> nat \<Rightarrow> mm_state" where
  "remove_free_block s bp =
     (let csize = (ucast (GET_SIZE s (HDRP bp)) :: 64 word);
          list_index = get_list_index csize;
          s1 = (if PREV_FREE_BLKP s bp = 0
                then SET_LISTP s list_index (NEXT_FREE_BLKP s bp)
                else SET_NEXT_FREE_BLKP s (PREV_FREE_BLKP s bp) (NEXT_FREE_BLKP s bp))
      in if NEXT_FREE_BLKP s1 bp \<noteq> 0
         then SET_PREV_FREE_BLKP s1 (NEXT_FREE_BLKP s1 bp) (PREV_FREE_BLKP s1 bp)
         else s1)"

definition coalesce :: "mm_state \<Rightarrow> nat \<Rightarrow> mm_state \<times> nat" where
  "coalesce s bp =
     (let prev_alloc = GET_ALLOC s (FTRP s (PREV_BLKP s bp));
          next_alloc = GET_ALLOC s (HDRP (NEXT_BLKP s bp));
          sz = (ucast (GET_SIZE s (HDRP bp)) :: 64 word)
      in if prev_alloc \<noteq> 0 \<and> next_alloc \<noteq> 0 then (insert_free_block s bp, bp)
         else if prev_alloc \<noteq> 0 \<and> next_alloc = 0 then
           (let sz' = sz + ucast (GET_SIZE s (HDRP (NEXT_BLKP s bp)));
                s1 = remove_free_block s (NEXT_BLKP s bp);
                s2 = PUTW s1 (HDRP bp) (PACK sz' 0);
                s3 = PUTW s2 (FTRP s2 bp) (PACK sz' 0)
            in (insert_free_block s3 bp, bp))
         else if prev_alloc = 0 \<and> next_alloc \<noteq> 0 then
           (let sz' = sz + ucast (GET_SIZE s (HDRP (PREV_BLKP s bp)));
                s1 = remove_free_block s (PREV_BLKP s bp);
                s2 = PUTW s1 (FTRP s1 bp) (PACK sz' 0);
                s3 = PUTW s2 (HDRP (PREV_BLKP s2 bp)) (PACK sz' 0);
                bp' = PREV_BLKP s3 bp
            in (insert_free_block s3 bp', bp'))
         else
           (let sz' = sz + ucast (GET_SIZE s (HDRP (PREV_BLKP s bp))
                                   + GET_SIZE s (FTRP s (NEXT_BLKP s bp)));
                s1 = remove_free_block s (PREV_BLKP s bp);
                s2 = remove_free_block s1 (NEXT_BLKP s1 bp);
                s3 = PUTW s2 (HDRP (PREV_BLKP s2 bp)) (PACK sz' 0);
                s4 = PUTW s3 (FTRP s3 (NEXT_BLKP s3 bp)) (PACK sz' 0);
                bp' = PREV_BLKP s4 bp
            in (insert_free_block s4 bp', bp')))"

definition place :: "mm_state \<Rightarrow> nat \<Rightarrow> 64 word \<Rightarrow> mm_state" where
  "place s bp a_size =
     (let csize = (ucast (GET_SIZE s (HDRP bp)) :: 64 word);
          s1 = remove_free_block s bp
      in if csize - a_size \<ge> 24
         then (let s2 = PUTW s1 (HDRP bp) (PACK a_size 1);
                   s3 = PUTW s2 (FTRP s2 bp) (PACK a_size 1);
                   bp' = NEXT_BLKP s3 bp;
                   s4 = PUTW s3 (HDRP bp') (PACK (csize - a_size) 0);
                   s5 = PUTW s4 (FTRP s4 bp') (PACK (csize - a_size) 0)
               in fst (coalesce s5 bp'))
         else (let s2 = PUTW s1 (HDRP bp) (PACK csize 1)
               in PUTW s2 (FTRP s2 bp) (PACK csize 1)))"

definition extend_heap :: "mm_state \<Rightarrow> 64 word \<Rightarrow> mm_state \<times> nat" where
  "extend_heap s words =
     (let sz = (if words mod 2 \<noteq> 0 then (words + 1) * 4 else words * 4);
          sz = (if sz < 24 then 24 else sz);
          (s1, bp) = mem_sbrk s sz
      in if bp = 2 ^ 64 - 1 then (s1, 0)
         else (let s2 = PUTW s1 (HDRP bp) (PACK sz 0);
                   s3 = PUTW s2 (FTRP s2 bp) (PACK sz 0);
                   s4 = PUTW s3 (HDRP (NEXT_BLKP s3 bp)) (PACK 0 1)
               in coalesce s4 bp))"

text \<open>
  The walk of \<open>find_fit\<close> along one free list.  The list is followed through the links in
  memory, so the walk need not end; the result 0 says that the list holds no fit.
\<close>

partial_function (option) find_fit_list :: "mm_state \<Rightarrow> nat \<Rightarrow> 64 word \<Rightarrow> nat option" where
  "find_fit_list s bp a_size =
     (if bp \<noteq> 0 \<and> GET_SIZE s (HDRP bp) > 0
      then (if GET_ALLOC s (HDRP bp) = 0 \<and> a_size \<le> ucast (GET_SIZE s (HDRP bp))
            then Some bp
            else find_fit_list s (NEXT_FREE_BLKP s bp) a_size)
      else Some 0)"

declare find_fit_list.simps [code]

function find_fit_lists :: "mm_state \<Rightarrow> int \<Rightarrow> 64 word \<Rightarrow> nat option" where
  "find_fit_lists s list_index a_size =
     (if list_index \<le> 13
      then (case find_fit_list s (GET_LISTP s list_index) a_size of
              None \<Rightarrow> None
            | Some bp \<Rightarrow>
                if bp \<noteq> 0 then Some bp else find_fit_lists s (list_index + 1) a_size)
      else Some 0)"
  by pat_completeness auto
termination
  by (relation "measure (\<lambda>(s, list_index, a_size). nat (14 - list_index))") auto

declare find_fit_lists.simps [simp del]

definition find_fit :: "mm_state \<Rightarrow> 64 word \<Rightarrow> nat option" where
  "find_fit s a_size = find_fit_lists s (get_list_index a_size) a_size"

function init_roots :: "mm_state \<Rightarrow> int \<Rightarrow> mm_state" where
  "init_roots s i = (if i \<le> 13 then init_roots (SET_LISTP s i 0) (i + 1) else s)"
  by pat_completeness auto
termination
  by (relation "measure (\<lambda>(s, i). nat (14 - i))") auto

declare init_roots.simps [simp del]

definition mm_init :: "mm_state \<Rightarrow> mm_state \<times> int" where
  "mm_init s =
     (let (s1, p) = mem_sbrk s (13 * 8);
          s1 = s1\<lparr>origin := p\<rparr>
      in if p = 0 then (s1, - 1)
         else (let (s2, h) = mem_sbrk s1 (4 * 4);
                   s2 = s2\<lparr>heap_listp := h\<rparr>
               in if h = 0 then (s2, - 1)
                  else (let s3 = PUTW s2 h 0;
                            s4 = PUTW s3 (h + 1 * 4) (PACK 8 1);
                            s5 = PUTW s4 (h + 2 * 4) (PACK 8 1);
                            s6 = PUTW s5 (h + 3 * 4) (PACK 0 1);
                            s7 = init_roots s6 1;
                            s8 = s7\<lparr>heap_listp := heap_listp s7 + 2 * 4\<rparr>;
                            (s9, bp) = extend_heap s8 (168 div 4)
                        in if bp = 0 then (s9, - 1) else (s9, 0))))"

definition mm_malloc :: "mm_state \<Rightarrow> 64 word \<Rightarrow> (mm_state \<times> nat) option" where
  "mm_malloc s0 sz =
     (let s = (if heap_listp s0 = 0 then fst (mm_init s0) else s0)
      in if sz = 0 then Some (s, 0)
         else (let a_size = (if sz \<le> 16 then 24 else 8 * ((sz + 8 + (8 - 1)) div 8))
               in case find_fit s a_size of
                    None \<Rightarrow> None
                  | Some bp \<Rightarrow>
                      if bp \<noteq> 0 then Some (place s bp a_size, bp)
                      else (let extend_size = max a_size 168;
                                (s1, bp') = extend_heap s (extend_size div 4)
                            in if bp' = 0 then Some (s1, 0)
                               else Some (place s1 bp' a_size, bp'))))"

definition mm_free :: "mm_state \<Rightarrow> nat \<Rightarrow> mm_state" where
  "mm_free s0 ptr =
     (let s = (if heap_listp s0 = 0 then fst (mm_init s0) else s0)
      in if ptr = 0 then s
         else (let sz = (ucast (GET_SIZE s (HDRP ptr)) :: 64 word);
                   s1 = PUTW s (HDRP ptr) (PACK sz 0);
                   s2 = PUTW s1 (FTRP s1 ptr) (PACK sz 0)
               in fst (coalesce s2 ptr)))"

text \<open>
  \<open>memcpy\<close> and \<open>memset\<close> on the heap memory.  \<open>realloc\<close> calls \<open>memcpy\<close> with two
  pointers it has tested against \<open>NULL\<close>; \<open>memset\<close> checks the pointer it is given, since a
  store of one byte or more through \<open>NULL\<close> is an invalid memory access.
\<close>

datatype mm_error = NullAccess

definition copy_bytes :: "(nat \<Rightarrow> byte) \<Rightarrow> nat \<Rightarrow> nat \<Rightarrow> nat \<Rightarrow> nat \<Rightarrow> byte" where
  "copy_bytes m dst src n a = (if dst \<le> a \<and> a < dst + n then m (src + (a - dst)) else m a)"

definition fill_bytes :: "(nat \<Rightarrow> byte) \<Rightarrow> nat \<Rightarrow> nat \<Rightarrow> byte \<Rightarrow> nat \<Rightarrow> byte" where
  "fill_bytes m p n c a = (if p \<le> a \<and> a < p + n then c else m a)"

definition memcpy :: "mm_state \<Rightarrow> nat \<Rightarrow> nat \<Rightarrow> 64 word \<Rightarrow> mm_state" where
  "memcpy s dst src n = s\<lparr>mem := copy_bytes (mem s) dst src (unat n)\<rparr>"

definition memset :: "mm_state \<Rightarrow> nat \<Rightarrow> byte \<Rightarrow> 64 word \<Rightarrow> mm_error + mm_state" where
  "memset s p c n =
     (if n \<noteq> 0 \<and> p = 0 then Inl NullAccess
      else Inr (s\<lparr>mem := fill_bytes (mem s) p (unat n) c\<rparr>))"

definition mm_realloc :: "mm_state \<Rightarrow> nat \<Rightarrow> 64 word \<Rightarrow> (mm_state \<times> nat) option" where
  "mm_realloc s old_ptr sz =
     (if sz = 0 then Some (mm_free s old_ptr, 0)
      else if old_ptr = 0 then mm_malloc s sz
      else
        (let old_size = (ucast (GET_SIZE s (HDRP old_ptr)) :: 64 word);
             new_size = (if sz \<le> 16 then 24 else ALIGN sz + 8)
         in if new_size = old_size then Some (s, old_ptr)
            else if new_size < old_size then
              (if old_size - new_size \<ge> 24
               then (let s1 = PUTW s (HDRP old_ptr) (PACK new_size 1);
                         s2 = PUTW s1 (FTRP s1 old_ptr) (PACK new_size 1);
                         bp = NEXT_BLKP s2 old_ptr;
                         s3 = PUTW s2 (HDRP bp) (PACK (old_size - new_size) 0);
                         s4 = PUTW s3 (FTRP s3 bp) (PACK (old_size - new_size) 0)
                     in Some (fst (coalesce s4 bp), old_ptr))
               else Some (s, old_ptr))
            else
              (let next_alloc = GET_ALLOC s (HDRP (NEXT_BLKP s old_ptr));
                   next_size = (ucast (GET_SIZE s (HDRP (NEXT_BLKP s old_ptr))) :: 64 word);
                   extend_size = new_size - old_size;
                   payload_size = old_size - 8
               in if next_alloc = 0 \<and> next_size > extend_size
                  then
                    (let s1 = remove_free_block s (NEXT_BLKP s old_ptr)
                     in if next_size - extend_size \<ge> 24
                        then (let s2 = PUTW s1 (HDRP old_ptr) (PACK new_size 1);
                                  s3 = PUTW s2 (FTRP s2 old_ptr) (PACK new_size 1);
                                  bp = NEXT_BLKP s3 old_ptr;
                                  s4 = PUTW s3 (HDRP bp) (PACK (next_size - extend_size) 0);
                                  s5 = PUTW s4 (FTRP s4 bp) (PACK (next_size - extend_size) 0)
                              in Some (fst (coalesce s5 bp), old_ptr))
                        else (let s2 = PUTW s1 (HDRP old_ptr) (PACK (old_size + next_size) 1);
                                  s3 = PUTW s2 (FTRP s2 old_ptr) (PACK (old_size + next_size) 1)
                              in Some (s3, old_ptr)))
                  else
                    (case mm_malloc s sz of
                       None \<Rightarrow> None
                     | Some (s1, new_ptr) \<Rightarrow>
                         if new_ptr = 0 then Some (s1, 0)
                         else (let s2 = memcpy s1 new_ptr old_ptr payload_size
                               in Some (mm_free s2 old_ptr, new_ptr))))))"

definition mm_calloc :: "mm_state \<Rightarrow> 64 word \<Rightarrow> 64 word \<Rightarrow> (mm_error + mm_state \<times> nat) option" where
  "mm_calloc s nmemb sz =
     (let total_size = nmemb * sz
      in case mm_malloc s total_size of
           None \<Rightarrow> None
         | Some (s1, bp) \<Rightarrow>
             (case memset s1 bp 0 total_size of
                Inl e \<Rightarrow> Some (Inl e)
              | Inr s2 \<Rightarrow> Some (Inr (s2, bp))))"

text \<open>The per-block checks of the heap checker \<open>mm_checkheap\<close>; the result 1 reports an error.\<close>

definition in_heap :: "mm_state \<Rightarrow> nat \<Rightarrow> bool" where
  "in_heap s p = (p \<le> mem_heap_hi s \<and> p \<ge> mem_heap_lo s)"

definition check_block :: "mm_state \<Rightarrow> nat \<Rightarrow> int" where
  "check_block s bp =
     (if bp = 0 then 0
      else (let error = (0 :: int);
                error = (if \<not> in_heap s bp then 1 else error);
                error = (if bp mod 8 \<noteq> 0 then 1 else error);
                error = (if GETW s (HDRP bp) \<noteq> GETW s (FTRP s bp) then 1 else error);
                error = (if (GET_SIZE s (HDRP bp) - 8) mod 8 \<noteq> 0 then 1 else error);
                error = (if bp \<noteq> heap_listp s \<and> GET_SIZE s (HDRP bp) > 0
                         then (if GET_SIZE s (HDRP bp) < 24 then 1 else error)
                         else error)
            in error))"

definition check_coalesce :: "mm_state \<Rightarrow> nat \<Rightarrow> int" where
  "check_coalesce s bp =
     (if GET_ALLOC s (HDRP bp) = 0
      then (let prev_alloc = GET_ALLOC s (FTRP s (PREV_BLKP s bp));
                next_alloc = GET_ALLOC s (HDRP (NEXT_BLKP s bp))
            in if prev_alloc = 0 \<or> next_alloc = 0 then 1 else 0)
      else 0)"

text \<open>
  The state of \<open>memlib\<close> before \<open>mm_init\<close>: an empty heap that starts at \<open>start\<close> and can
  grow by \<open>capacity\<close> bytes, with the allocator's two globals still 0.
\<close>

definition fresh_heap :: "nat \<Rightarrow> nat \<Rightarrow> mm_state" where
  "fresh_heap start capacity =
     \<lparr>mem = (\<lambda>a. 0), mem_start_brk = start, mem_brk = start, mem_max_addr = start + capacity,
      heap_listp = 0, origin = 0\<rparr>"
subsection \<open>Well-formed heaps\<close>

text \<open>
  \<open>frame W s s'\<close>: the state \<open>s'\<close> differs from \<open>s\<close> at most in the bytes at the
  addresses in \<open>W\<close>.
\<close>

definition frame :: "nat set \<Rightarrow> mm_state \<Rightarrow> mm_state \<Rightarrow> bool" where
  "frame W s s' =
     ((\<forall>a. a \<notin> W \<longrightarrow> mem s' a = mem s a) \<and> mem_start_brk s' = mem_start_brk s \<and>
      mem_brk s' = mem_brk s \<and> mem_max_addr s' = mem_max_addr s \<and>
      heap_listp s' = heap_listp s \<and> origin s' = origin s)"






text \<open>
  \<open>chain s prev cur xs\<close>: following the forward links from \<open>cur\<close> visits exactly the
  blocks \<open>xs\<close> and then reaches \<open>NULL\<close>, and the back link of each block is its
  predecessor (\<open>prev\<close> for the first).
\<close>

fun chain :: "mm_state \<Rightarrow> nat \<Rightarrow> nat \<Rightarrow> nat list \<Rightarrow> bool" where
  "chain s prev cur [] = (cur = 0)"
| "chain s prev cur (x # xs) =
     (cur = x \<and> x \<noteq> 0 \<and> PREV_FREE_BLKP s x = prev \<and> chain s x (NEXT_FREE_BLKP s x) xs)"










section \<open>Properties of the proxy cache\<close>

lemma walk_to_last_eq: "bs \<noteq> [] \<Longrightarrow> walk_to_last bs i = i + length bs - 1"
  by (induction bs i rule: walk_to_last.induct) auto


lemma search_from_bound:
  "search_from bs i h u = Some j \<Longrightarrow> i \<le> j \<and> j < i + length bs"
  by (induction bs arbitrary: i) (auto split: if_splits, fastforce+)

lemma search_from_hit:
  "search_from bs i h u = Some j \<Longrightarrow> host (bs ! (j - i)) = h \<and> uri (bs ! (j - i)) = u"
proof (induction bs arbitrary: i)
  case Nil then show ?case by simp
next
  case (Cons b bs)
  show ?case
  proof (cases "host b = h \<and> uri b = u")
    case True with Cons.prems show ?thesis by simp
  next
    case False
    with Cons.prems have s: "search_from bs (Suc i) h u = Some j" by auto
    from search_from_bound[OF s] have "Suc i \<le> j" by simp
    then have "j - i = Suc (j - Suc i)" by simp
    with Cons.IH[OF s] show ?thesis by simp
  qed
qed

lemma search_from_None:
  "search_from bs i h u = None \<longleftrightarrow> (\<forall>b \<in> set bs. \<not> (host b = h \<and> uri b = u))"
  by (induction bs arbitrary: i) auto

lemma sum_list_remove_nth_nat:
  fixes f :: "'a \<Rightarrow> nat"
  shows "i < length xs \<Longrightarrow>
         sum_list (map f (take i xs @ drop (Suc i) xs)) + f (xs ! i) = sum_list (map f xs)"
proof (induction xs arbitrary: i)
  case Nil then show ?case by simp
next
  case (Cons x xs)
  then show ?case by (cases i) (auto simp: algebra_simps)
qed

lemma unat_add_bounded:
  fixes x y m :: "32 word"
  shows "unat x + unat y \<le> unat m \<Longrightarrow> unat (x + y) = unat x + unat y"
proof -
  assume "unat x + unat y \<le> unat m"
  moreover have "unat m < 2 ^ LENGTH(32)" by (rule unsigned_less)
  ultimately have "unat x + unat y < 2 ^ LENGTH(32)" by linarith
  then show ?thesis by (rule iffD1[OF unat_add_lem])
qed

lemma remove_block_exact:
  assumes a: "accounting_exact m c" and i: "i < length (root c)"
    and r: "remove_block c (Some i) = Inr c'"
  shows "accounting_exact m c'"
proof -
  let ?p = "payload_size (root c ! i)"
  let ?rest = "take i (root c) @ drop (Suc i) (root c)"
  from r have c': "c' = c\<lparr>root := ?rest, space := space c + ?p\<rparr>"
    by (simp add: remove_block_def)
  from sum_list_remove_nth_nat[OF i, of "\<lambda>b. unat (payload_size b)"]
  have s: "sum_list (map (\<lambda>b. unat (payload_size b)) ?rest) + unat ?p = stored_bytes c"
    by (simp add: stored_bytes_def)
  with a have "unat (space c) + unat ?p \<le> unat m" by (simp add: accounting_exact_def)
  from unat_add_bounded[OF this] a s show ?thesis
    by (simp add: c' accounting_exact_def stored_bytes_def)
qed

lemma insert_block_exact:
  assumes a: "accounting_exact m c" and le: "payload_size b \<le> space c"
  shows "accounting_exact m (insert_block c b)"
proof -
  from le have "unat (space c - payload_size b) = unat (space c) - unat (payload_size b)"
    by (simp add: unat_sub)
  moreover from le have "unat (payload_size b) \<le> unat (space c)" by (simp add: word_le_nat_alt)
  ultimately show ?thesis
    using a by (simp add: accounting_exact_def stored_bytes_def insert_block_def)
qed


lemma eviction_nonempty:
  "root c \<noteq> [] \<Longrightarrow>
   eviction c = Inr (c\<lparr>root := butlast (root c), space := space c + payload_size (last (root c))\<rparr>)"
  by (simp add: eviction_def get_lru_def remove_block_def walk_to_last_eq butlast_conv_take
                last_conv_nth)

lemma eviction_empty: "root c = [] \<Longrightarrow> eviction c = Inl NullDeref"
  by (simp add: eviction_def get_lru_def remove_block_def)

lemma eviction_exact:
  "accounting_exact m c \<Longrightarrow> eviction c = Inr c' \<Longrightarrow> accounting_exact m c'"
proof -
  assume a: "accounting_exact m c" and e: "eviction c = Inr c'"
  from e have ne: "root c \<noteq> []" by (auto simp: eviction_empty)
  then have "walk_to_last (root c) 0 < length (root c)" by (simp add: walk_to_last_eq)
  with a e ne show ?thesis
    by (auto simp: eviction_def get_lru_def intro: remove_block_exact)
qed

lemma evict_loop_exact:
  "accounting_exact m c \<Longrightarrow> evict_loop c len = Inr c' \<Longrightarrow>
   accounting_exact m c' \<and> len \<le> space c'"
proof (induction c len rule: evict_loop.induct)
  case (1 c len)
  show ?case
  proof (cases "space c < len")
    case False
    with "1.prems" show ?thesis by (simp add: evict_loop.simps)
  next
    case True
    with "1.prems"(2) obtain c1 where e: "eviction c = Inr c1" and l: "evict_loop c1 len = Inr c'"
      by (auto simp: evict_loop.simps[of c len] split: sum.splits)
    from "1.IH"[OF True e eviction_exact[OF "1.prems"(1) e] l] show ?thesis .
  qed
qed

lemma reader_enter_quiescent:
  "quiescent c \<Longrightarrow> reader_enter c = Inr (c\<lparr>mutex_write := 0, readcnt := 1\<rparr>)"
  by (simp add: quiescent_def reader_enter_def sem_P_def sem_V_def)

lemma reader_exit_last:
  "readcnt c = 1 \<Longrightarrow> mutex_read c = 1 \<Longrightarrow> mutex_write c = 0 \<Longrightarrow>
   reader_exit c = Inr (c\<lparr>mutex_write := 1, readcnt := 0\<rparr>)"
  by (simp add: reader_exit_def sem_P_def sem_V_def)

lemma read_cache_quiescent_cases:
  assumes q: "quiescent c"
  shows "read_cache (Some c) h u buffer =
     (case search_block c h u of
        None \<Rightarrow> Inr (- 1, Some c, buffer)
      | Some i \<Rightarrow>
          (case memcpy_into buffer (payload (root c ! i)) (size_t_of_int (payload_size (root c ! i))) of
             Inl e \<Rightarrow> Inl e
           | Inr buffer' \<Rightarrow>
               Inr (payload_size (root c ! i),
                    Some (c\<lparr>root := (root c ! i) # (take i (root c) @ drop (Suc i) (root c)),
                            space := space c + payload_size (root c ! i) - payload_size (root c ! i)\<rparr>),
                    buffer')))"
proof -
  have c_eq: "c\<lparr>mutex_write := 0, readcnt := 1, mutex_write := 1, readcnt := 0\<rparr> = c"
    using q by (simp add: quiescent_def)
  show ?thesis
    using q
    by (auto simp: read_cache_def reader_enter_quiescent reader_exit_last search_block_def
          read_cache_block_def lru_update_def sem_P_def sem_V_def remove_block_def
          insert_block_def quiescent_def c_eq
          split: option.splits sum.splits)
qed


lemma lru_update_exact:
  assumes a: "accounting_exact m c" and i: "i < length (root c)" and l: "lru_update c i = Inr c'"
  shows "accounting_exact m c'"
proof -
  from l obtain w where w: "sem_P (mutex_write c) = Inr w"
    by (auto simp: lru_update_def split: sum.splits)
  let ?c0 = "c\<lparr>mutex_write := w\<rparr>"
  from l w obtain c1 where r: "remove_block ?c0 (Some i) = Inr c1"
    and c': "c' = (insert_block c1 (root c ! i))\<lparr>mutex_write := sem_V (mutex_write (insert_block c1 (root c ! i)))\<rparr>"
    by (auto simp: lru_update_def Let_def split: sum.splits)
  from a have a0: "accounting_exact m ?c0" by (simp add: accounting_exact_def stored_bytes_def)
  from i have i0: "i < length (root ?c0)" by simp
  from remove_block_exact[OF a0 i0 r] have a1: "accounting_exact m c1" .
  from r have "space c1 = space c + payload_size (root c ! i)" by (auto simp: remove_block_def)
  moreover from a1 this have "unat (space c + payload_size (root c ! i)) = unat (space c) + unat (payload_size (root c ! i))"
    using a sum_list_remove_nth_nat[OF i, of "\<lambda>b. unat (payload_size b)"]
    by (intro unat_add_bounded[of _ _ m]) (simp add: accounting_exact_def stored_bytes_def)
  ultimately have "payload_size (root c ! i) \<le> space c1" by (simp add: word_le_nat_alt)
  from insert_block_exact[OF a1 this] show ?thesis
    by (simp add: c' accounting_exact_def stored_bytes_def)
qed


lemma read_cache_handle:
  "read_cache my_cache h u buffer = Inr (n, my_cache', buffer') \<Longrightarrow>
   (my_cache = None) = (my_cache' = None)"
  by (auto simp: read_cache_def split: option.splits sum.splits prod.splits)

lemma write_cache_handle:
  "write_cache avail my_cache h u buffer len = Inr (n, my_cache') \<Longrightarrow>
   (my_cache = None) = (my_cache' = None)"
  by (auto simp: write_cache_def Let_def split: option.splits sum.splits prod.splits if_splits)

lemma read_cache_exact:
  assumes a: "accounting_exact m c" and r: "read_cache (Some c) h u buffer = Inr (n, Some c', buffer')"
  shows "accounting_exact m c'"
proof -
  have enter: "\<And>c0 c1. reader_enter c0 = Inr c1 \<Longrightarrow> root c1 = root c0 \<and> space c1 = space c0"
    by (auto simp: reader_enter_def Let_def split: sum.splits if_splits)
  have exit: "\<And>c0 c1. reader_exit c0 = Inr c1 \<Longrightarrow> root c1 = root c0 \<and> space c1 = space c0"
    by (auto simp: reader_exit_def Let_def split: sum.splits if_splits)
  from r obtain c1 where e1: "reader_enter c = Inr c1"
    by (auto simp: read_cache_def split: sum.splits)
  show ?thesis
  proof (cases "search_block c1 h u")
    case None
    with r e1 obtain c2 where "reader_exit c1 = Inr c2" "c' = c2"
      by (auto simp: read_cache_def split: sum.splits)
    with enter[OF e1] exit[of c1 c2] a show ?thesis
      by (simp add: accounting_exact_def stored_bytes_def)
  next
    case (Some i)
    with r e1 obtain c2 where e2: "reader_exit c1 = Inr c2" and l: "lru_update c2 i = Inr c'"
      by (auto simp: read_cache_def split: sum.splits prod.splits)
    from Some have "i < length (root c1)"
      using search_from_bound[of "root c1" 0 h u i] by (simp add: search_block_def)
    with enter[OF e1] exit[OF e2] have i: "i < length (root c2)" by simp
    from enter[OF e1] exit[OF e2] a have "accounting_exact m c2"
      by (simp add: accounting_exact_def stored_bytes_def)
    from lru_update_exact[OF this i l] show ?thesis .
  qed
qed

lemma create_block_payload_size:
  "create_block avail h u buffer sz = Inr (Some b) \<Longrightarrow> payload_size b = sz"
  by (auto simp: create_block_def split: if_splits sum.splits)

lemma write_cache_exact:
  assumes a: "accounting_exact m c" and w: "write_cache avail (Some c) h u buffer len = Inr (n, Some c')"
  shows "accounting_exact m c'"
proof (cases "len > max_object_size c")
  case True
  with w a show ?thesis by (simp add: write_cache_def)
next
  case False
  with w obtain mw c1 where p: "sem_P (mutex_write c) = Inr mw"
    and l: "evict_loop (c\<lparr>mutex_write := mw\<rparr>) len = Inr c1"
    by (auto simp: write_cache_def split: sum.splits)
  from a have "accounting_exact m (c\<lparr>mutex_write := mw\<rparr>)"
    by (simp add: accounting_exact_def stored_bytes_def)
  from evict_loop_exact[OF this l] have a1: "accounting_exact m c1" and le: "len \<le> space c1"
    by simp_all
  from w False p l obtain ob where cb: "create_block avail h u buffer len = Inr ob"
    by (auto simp: write_cache_def split: sum.splits)
  show ?thesis
  proof (cases ob)
    case None
    with w False p l cb a1 show ?thesis
      by (auto simp: write_cache_def accounting_exact_def stored_bytes_def)
  next
    case (Some b)
    with create_block_payload_size cb have "payload_size b = len" by blast
    with le have "payload_size b \<le> space c1" by simp
    from insert_block_exact[OF a1 this] w False p l cb Some show ?thesis
      by (auto simp: write_cache_def Let_def accounting_exact_def stored_bytes_def)
  qed
qed

lemma run_call_exact:
  assumes "run_call (Some c) call = Inr my_cache'"
    and "accounting_exact m c"
  shows "\<exists>c'. my_cache' = Some c' \<and> accounting_exact m c'"
proof (cases call)
  case (Read_call h u buffer)
  with assms(1) obtain r b where r: "read_cache (Some c) h u buffer = Inr (r, my_cache', b)"
    by (auto split: sum.splits)
  from read_cache_handle[OF r] obtain c' where c': "my_cache' = Some c'" by auto
  with read_cache_exact[OF assms(2)] r show ?thesis by auto
next
  case (Write_call avail h u buffer len)
  with assms(1) obtain r where r: "write_cache avail (Some c) h u buffer len = Inr (r, my_cache')"
    by (auto split: sum.splits)
  from write_cache_handle[OF r] obtain c' where c': "my_cache' = Some c'" by auto
  with write_cache_exact[OF assms(2)] r show ?thesis by auto
qed

lemma run_calls_exact:
  "accounting_exact m c \<Longrightarrow> run_calls (Some c) calls = Inr (Some c') \<Longrightarrow> accounting_exact m c'"
proof (induction calls arbitrary: c)
  case Nil then show ?case by simp
next
  case (Cons call calls)
  from Cons.prems(2) obtain mc where rc: "run_call (Some c) call = Inr mc"
    and rs: "run_calls mc calls = Inr (Some c')"
    by (auto split: sum.splits)
  from run_call_exact[OF rc Cons.prems(1)] obtain c1 where "mc = Some c1" "accounting_exact m c1"
    by auto
  with Cons.IH rs show ?case by auto
qed

text \<open>
  Claim C3.  Start from \<open>init_cache\<close> with capacity \<open>max_cache_size\<close> and run any
  sequence of \<open>read_cache\<close> and \<open>write_cache\<close> calls, whatever each call returns (hit or
  miss, written or refused, allocation failed after evicting).  In the cache left by the
  last call, \<open>space\<close> plus the sum of the \<open>payload_size\<close> of the blocks in the list equals
  \<open>max_cache_size\<close>.  The equation is one of natural numbers: the \<open>unsigned int\<close>
  arithmetic in which the code keeps \<open>space\<close> never wraps around.
\<close>

theorem cache_accounting_invariant:
  "run_calls (init_cache avail max_cache_size input_max_object_size) calls = Inr (Some c) \<Longrightarrow>
   unat (space c) + sum_list (map (\<lambda>b. unat (payload_size b)) (root c)) = unat max_cache_size"
proof -
  assume r: "run_calls (init_cache avail max_cache_size input_max_object_size) calls = Inr (Some c)"
  have none: "\<And>calls. run_calls None calls = Inr None"
  proof -
    fix calls show "run_calls None calls = Inr None"
    proof (induction calls)
      case Nil show ?case by simp
    next
      case (Cons call calls)
      then show ?case by (cases call) (simp_all add: read_cache_def write_cache_def)
    qed
  qed
  show ?thesis
  proof (cases avail)
    case False
    with r none show ?thesis by (simp add: init_cache_def)
  next
    case True
    have "accounting_exact max_cache_size \<lparr>space = max_cache_size, max_object_size = input_max_object_size,
                 root = [], readcnt = 0, mutex_read = 1, mutex_write = 1\<rparr>"
      by (simp add: accounting_exact_def stored_bytes_def)
    from run_calls_exact[OF this] r True have "accounting_exact max_cache_size c"
      by (simp add: init_cache_def)
    then show ?thesis by (simp add: accounting_exact_def stored_bytes_def)
  qed
qed

lemmas cache_eval_simps =
  init_cache_def read_cache_def write_cache_def reader_enter_def reader_exit_def sem_P_def sem_V_def
  search_block_def read_cache_block_def lru_update_def remove_block_def insert_block_def
  create_block_def memcpy_from_def memcpy_into_def size_t_of_int_def evict_loop.simps
  eviction_def get_lru_def Let_def all_available_def payload_unavailable_def

text \<open>
  A run that fills the cache, promotes a block by a hit, evicts for a write whose payload
  allocation then fails, and writes again.
\<close>

theorem cache_accounting_invariant_witness:
  "run_calls (init_cache True 10 10)
     [Write_call all_available ''a'' ''/'' [1, 2, 3] 3,
      Write_call all_available ''b'' ''/'' [4, 5, 6] 3,
      Write_call all_available ''c'' ''/'' [7, 8, 9] 3,
      Read_call ''a'' ''/'' [0, 0, 0],
      Write_call payload_unavailable ''d'' ''/'' [1, 1, 1] 3,
      Write_call all_available ''e'' ''/'' [2, 2, 2] 3]
   = Inr (Some \<lparr>space = 1, max_object_size = 10,
                 root = [\<lparr>payload_size = 3, host = ''e'', uri = ''/'', payload = [2, 2, 2]\<rparr>,
                         \<lparr>payload_size = 3, host = ''a'', uri = ''/'', payload = [1, 2, 3]\<rparr>,
                         \<lparr>payload_size = 3, host = ''c'', uri = ''/'', payload = [7, 8, 9]\<rparr>],
                 readcnt = 0, mutex_read = 1, mutex_write = 1\<rparr>)
   \<and> unat (1 :: 32 word) + sum_list (map (\<lambda>b. unat (payload_size b))
          [\<lparr>payload_size = 3, host = ''e'', uri = ''/'', payload = [2, 2, 2]\<rparr>,
           \<lparr>payload_size = 3, host = ''a'', uri = ''/'', payload = [1, 2, 3]\<rparr>,
           \<lparr>payload_size = 3, host = ''c'', uri = ''/'', payload = [7, 8, 9]\<rparr>])
       = unat (10 :: 32 word)"
proof -
  let ?calls = "[Write_call all_available ''a'' ''/'' [1, 2, 3] 3,
      Write_call all_available ''b'' ''/'' [4, 5, 6] 3,
      Write_call all_available ''c'' ''/'' [7, 8, 9] 3,
      Read_call ''a'' ''/'' [0, 0, 0],
      Write_call payload_unavailable ''d'' ''/'' [1, 1, 1] 3,
      Write_call all_available ''e'' ''/'' [2, 2, 2] 3]"
  let ?c = "\<lparr>space = 1, max_object_size = 10,
                 root = [\<lparr>payload_size = 3, host = ''e'', uri = ''/'', payload = [2, 2, 2]\<rparr>,
                         \<lparr>payload_size = 3, host = ''a'', uri = ''/'', payload = [1, 2, 3]\<rparr>,
                         \<lparr>payload_size = 3, host = ''c'', uri = ''/'', payload = [7, 8, 9]\<rparr>],
                 readcnt = 0, mutex_read = 1, mutex_write = 1\<rparr>"
  have run: "run_calls (init_cache True 10 10) ?calls = Inr (Some ?c)"
    by (simp add: cache_eval_simps)
  from cache_accounting_invariant[OF run] run show ?thesis by simp
qed


lemma evict_loop_result:
  "\<exists>k \<le> length (root c).
     (\<forall>j. k < j \<and> j \<le> length (root c) \<longrightarrow>
            space c + sum_list (map payload_size (drop j (root c))) < len) \<and>
     (if space c + sum_list (map payload_size (drop k (root c))) < len
      then k = 0 \<and> evict_loop c len = Inl NullDeref
      else evict_loop c len =
             Inr (c\<lparr>root := take k (root c),
                     space := space c + sum_list (map payload_size (drop k (root c)))\<rparr>))"
proof (induction c len rule: evict_loop.induct)
  case (1 c len)
  show ?case
  proof (cases "space c < len")
    case False
    then have "evict_loop c len = Inr c" by (simp add: evict_loop.simps)
    with False show ?thesis by (intro exI[of _ "length (root c)"]) simp
  next
    case True
    show ?thesis
    proof (cases "root c = []")
      case True
      with \<open>space c < len\<close> have "evict_loop c len = Inl NullDeref"
        by (simp add: evict_loop.simps[of c len] eviction_empty)
      with True \<open>space c < len\<close> show ?thesis by simp
    next
      case False
      define c1 where "c1 = c\<lparr>root := butlast (root c), space := space c + payload_size (last (root c))\<rparr>"
      have e: "eviction c = Inr c1" using False by (simp add: eviction_nonempty c1_def)
      have l: "evict_loop c len = evict_loop c1 len"
        using True e by (simp add: evict_loop.simps[of c len])
      have drop_eq: "\<And>k. k \<le> length (butlast (root c)) \<Longrightarrow>
          payload_size (last (root c)) + sum_list (map payload_size (drop k (butlast (root c))))
          = sum_list (map payload_size (drop k (root c)))"
      proof -
        fix k assume k: "k \<le> length (butlast (root c))"
        have "drop k (root c) = drop k (butlast (root c) @ [last (root c)])"
          using False by simp
        also have "\<dots> = drop k (butlast (root c)) @ [last (root c)]"
          using k by simp
        finally show "payload_size (last (root c)) + sum_list (map payload_size (drop k (butlast (root c))))
          = sum_list (map payload_size (drop k (root c)))" by simp
      qed
      from "1.IH"[OF True e] obtain k where k: "k \<le> length (root c1)"
        and before: "\<forall>j. k < j \<and> j \<le> length (root c1) \<longrightarrow>
            space c1 + sum_list (map payload_size (drop j (root c1))) < len"
        and res: "if space c1 + sum_list (map payload_size (drop k (root c1))) < len
          then k = 0 \<and> evict_loop c1 len = Inl NullDeref
          else evict_loop c1 len =
             Inr (c1\<lparr>root := take k (root c1),
                     space := space c1 + sum_list (map payload_size (drop k (root c1)))\<rparr>)"
        by blast
      have sp: "\<And>j. j \<le> length (root c1) \<Longrightarrow>
         space c1 + sum_list (map payload_size (drop j (root c1)))
         = space c + sum_list (map payload_size (drop j (root c)))"
        using drop_eq by (simp add: c1_def add.assoc)
      have len1: "length (root c1) = length (root c) - 1" by (simp add: c1_def)
      have "k \<le> length (root c) - 1" using k len1 by simp
      then have tk: "take k (root c1) = take k (root c)"
        by (simp add: c1_def butlast_conv_take min_def)
      show ?thesis
      proof (intro exI[of _ k] conjI allI impI)
        show "k \<le> length (root c)" using k len1 by simp
      next
        fix j assume j: "k < j \<and> j \<le> length (root c)"
        show "space c + sum_list (map payload_size (drop j (root c))) < len"
        proof (cases "j \<le> length (root c1)")
          case True
          with before j sp[OF True] show ?thesis by auto
        next
          case False
          with j len1 have "j = length (root c)" by linarith
          with \<open>space c < len\<close> show ?thesis by simp
        qed
      next
        show "if space c + sum_list (map payload_size (drop k (root c))) < len
          then k = 0 \<and> evict_loop c len = Inl NullDeref
          else evict_loop c len =
             Inr (c\<lparr>root := take k (root c),
                     space := space c + sum_list (map payload_size (drop k (root c)))\<rparr>)"
        proof -
          define s1 where "s1 = space c + sum_list (map payload_size (drop k (root c)))"
          have e1: "space c1 + sum_list (map payload_size (drop k (root c1))) = s1"
            using sp[OF k] by (simp add: s1_def)
          have r1: "c1\<lparr>root := take k (root c1), space := s1\<rparr>
                    = c\<lparr>root := take k (root c), space := s1\<rparr>"
            using tk by (simp add: c1_def)
          from res have "if s1 < len then k = 0 \<and> evict_loop c len = Inl NullDeref
             else evict_loop c len = Inr (c\<lparr>root := take k (root c), space := s1\<rparr>)"
            by (simp only: e1 l r1)
          then show ?thesis by (simp only: s1_def)
        qed
      qed
    qed
  qed
qed

lemma sint_le_unsigned:
  fixes a b :: "32 word"
  assumes "0 \<le> sint a" "sint a \<le> sint b"
  shows "a \<le> b"
proof -
  have nonneg: "\<And>w :: 32 word. 0 \<le> sint w \<Longrightarrow> uint w = sint w"
  proof -
    fix w :: "32 word" assume "0 \<le> sint w"
    moreover have "sint w < 2 ^ 32" using sint_lt[of w] by simp
    ultimately show "uint w = sint w" by (simp add: uint_sint take_bit_int_eq_self)
  qed
  from assms have "0 \<le> sint b" by simp
  with assms nonneg[of a] nonneg[of b] show ?thesis by (simp add: word_le_def)
qed

text \<open>
  Claim C10.  In a cache that satisfies the accounting equation for capacity \<open>m\<close>, and for
  \<open>0 \<le> len \<le> m\<close>, the eviction loop of \<open>write_cache\<close> returns normally: \<open>eviction\<close> is never
  run on an empty list (the only way the loop can fail).  One \<open>eviction\<close> removes exactly
  the last block and adds its payload size to \<open>space\<close>; the loop keeps the first \<open>k\<close>
  blocks for some \<open>k\<close>, gives back the payload sizes of the others, stops with
  \<open>space \<ge> len\<close>, and the guard held before each of the evictions it made.
\<close>

theorem eviction_loop_terminates:
  assumes acc: "space c = m - sum_list (map payload_size (root c))"
    and len: "0 \<le> sint len" "sint len \<le> sint m"
  shows "(root c \<noteq> [] \<longrightarrow>
            eviction c = Inr (c\<lparr>root := butlast (root c),
                                 space := space c + payload_size (last (root c))\<rparr>)) \<and>
         (\<exists>k \<le> length (root c).
            evict_loop c len =
              Inr (c\<lparr>root := take k (root c),
                      space := space c + sum_list (map payload_size (drop k (root c)))\<rparr>) \<and>
            \<not> space c + sum_list (map payload_size (drop k (root c))) < len \<and>
            (\<forall>j. k < j \<and> j \<le> length (root c) \<longrightarrow>
               space c + sum_list (map payload_size (drop j (root c))) < len))"
proof (intro conjI impI)
  assume "root c \<noteq> []"
  then show "eviction c = Inr (c\<lparr>root := butlast (root c),
                                 space := space c + payload_size (last (root c))\<rparr>)"
    by (rule eviction_nonempty)
next
  from evict_loop_result[of c len] obtain k where k: "k \<le> length (root c)"
    and before: "\<forall>j. k < j \<and> j \<le> length (root c) \<longrightarrow>
            space c + sum_list (map payload_size (drop j (root c))) < len"
    and res: "if space c + sum_list (map payload_size (drop k (root c))) < len
      then k = 0 \<and> evict_loop c len = Inl NullDeref
      else evict_loop c len =
             Inr (c\<lparr>root := take k (root c),
                     space := space c + sum_list (map payload_size (drop k (root c)))\<rparr>)"
    by blast
  have "\<not> space c + sum_list (map payload_size (drop k (root c))) < len"
  proof
    assume lt: "space c + sum_list (map payload_size (drop k (root c))) < len"
    with res have "k = 0" by simp
    with lt acc have "m < len" by simp
    moreover have "len \<le> m" using len by (rule sint_le_unsigned)
    ultimately show False by simp
  qed
  with res before k
  show "\<exists>k \<le> length (root c).
            evict_loop c len =
              Inr (c\<lparr>root := take k (root c),
                      space := space c + sum_list (map payload_size (drop k (root c)))\<rparr>) \<and>
            \<not> space c + sum_list (map payload_size (drop k (root c))) < len \<and>
            (\<forall>j. k < j \<and> j \<le> length (root c) \<longrightarrow>
               space c + sum_list (map payload_size (drop j (root c))) < len)"
    by auto
qed

text \<open>
  A cache of capacity 10 with three blocks of 3 bytes and a request for 5 bytes: two
  blocks are evicted.
\<close>

theorem eviction_loop_terminates_witness:
  "evict_loop
     \<lparr>space = 1, max_object_size = 10,
      root = [\<lparr>payload_size = 3, host = ''e'', uri = ''/'', payload = [2, 2, 2]\<rparr>,
              \<lparr>payload_size = 3, host = ''a'', uri = ''/'', payload = [1, 2, 3]\<rparr>,
              \<lparr>payload_size = 3, host = ''c'', uri = ''/'', payload = [7, 8, 9]\<rparr>],
      readcnt = 0, mutex_read = 1, mutex_write = 0\<rparr> 5
   = Inr \<lparr>space = 7, max_object_size = 10,
      root = [\<lparr>payload_size = 3, host = ''e'', uri = ''/'', payload = [2, 2, 2]\<rparr>],
      readcnt = 0, mutex_read = 1, mutex_write = 0\<rparr>
   \<and> eviction \<lparr>space = 1, max_object_size = 10,
      root = [\<lparr>payload_size = 3, host = ''e'', uri = ''/'', payload = [2, 2, 2]\<rparr>,
              \<lparr>payload_size = 3, host = ''a'', uri = ''/'', payload = [1, 2, 3]\<rparr>,
              \<lparr>payload_size = 3, host = ''c'', uri = ''/'', payload = [7, 8, 9]\<rparr>],
      readcnt = 0, mutex_read = 1, mutex_write = 0\<rparr>
   = Inr \<lparr>space = 4, max_object_size = 10,
      root = [\<lparr>payload_size = 3, host = ''e'', uri = ''/'', payload = [2, 2, 2]\<rparr>,
              \<lparr>payload_size = 3, host = ''a'', uri = ''/'', payload = [1, 2, 3]\<rparr>],
      readcnt = 0, mutex_read = 1, mutex_write = 0\<rparr>"
proof -
  let ?c = "\<lparr>space = 1, max_object_size = 10,
      root = [\<lparr>payload_size = 3, host = ''e'', uri = ''/'', payload = [2, 2, 2]\<rparr>,
              \<lparr>payload_size = 3, host = ''a'', uri = ''/'', payload = [1, 2, 3]\<rparr>,
              \<lparr>payload_size = 3, host = ''c'', uri = ''/'', payload = [7, 8, 9]\<rparr>],
      readcnt = 0, mutex_read = 1, mutex_write = 0\<rparr>"
  have acc: "space ?c = 10 - sum_list (map payload_size (root ?c))" by simp
  have l1: "0 \<le> sint (5 :: 32 word)" and l2: "sint (5 :: 32 word) \<le> sint (10 :: 32 word)"
    by simp_all
  from eviction_loop_terminates[OF acc l1 l2]
  obtain k where k: "k \<le> length (root ?c)"
    and res: "evict_loop ?c 5 =
              Inr (?c\<lparr>root := take k (root ?c),
                      space := space ?c + sum_list (map payload_size (drop k (root ?c)))\<rparr>)"
    and ev: "eviction ?c = Inr (?c\<lparr>root := butlast (root ?c),
                                 space := space ?c + payload_size (last (root ?c))\<rparr>)"
    by auto
  have "evict_loop ?c 5 = Inr \<lparr>space = 7, max_object_size = 10,
      root = [\<lparr>payload_size = 3, host = ''e'', uri = ''/'', payload = [2, 2, 2]\<rparr>],
      readcnt = 0, mutex_read = 1, mutex_write = 0\<rparr>"
    by (simp add: cache_eval_simps)
  with ev show ?thesis by simp
qed


text \<open>
  Claim C9.  When no block of the cache has the key \<open>(h, u)\<close>, \<open>read_cache\<close> returns \<open>-1\<close>
  and the cache after the call is the cache before it: the same blocks in the same order
  with the same payloads, the same \<open>space\<close>, and the reader count and both semaphores
  back at their values; the caller's buffer is not written.  The two hypotheses on the
  semaphores say that the calling thread is not blocked by another one.
\<close>

theorem read_miss_leaves_cache_unchanged:
  assumes miss: "\<forall>b \<in> set (root c). \<not> (host b = h \<and> uri b = u)"
    and mr: "0 < mutex_read c"
    and mw: "readcnt c = 0 \<longrightarrow> 0 < mutex_write c"
  shows "read_cache (Some c) h u buffer = Inr (- 1, Some c, buffer)"
proof -
  have s: "\<And>c'. root c' = root c \<Longrightarrow> search_block c' h u = None"
    using miss by (simp add: search_block_def search_from_None)
  have inc: "readcnt c + 1 = 1 \<longleftrightarrow> readcnt c = 0" by simp
  show ?thesis
  proof (cases "readcnt c = 0")
    case True
    with mr mw show ?thesis
      by (simp add: read_cache_def reader_enter_def reader_exit_def sem_P_def sem_V_def s Let_def)
  next
    case False
    with mr show ?thesis
      by (simp add: read_cache_def reader_enter_def reader_exit_def sem_P_def sem_V_def s Let_def)
  qed
qed

text \<open>
  A miss on a cache with two blocks.
\<close>

theorem read_miss_leaves_cache_unchanged_witness:
  "read_cache
     (Some \<lparr>space = 4, max_object_size = 10,
        root = [\<lparr>payload_size = 3, host = ''e'', uri = ''/'', payload = [2, 2, 2]\<rparr>,
                \<lparr>payload_size = 3, host = ''a'', uri = ''/'', payload = [1, 2, 3]\<rparr>],
        readcnt = 0, mutex_read = 1, mutex_write = 1\<rparr>) ''a'' ''/x'' [0, 0, 0]
   = Inr (- 1,
      Some \<lparr>space = 4, max_object_size = 10,
        root = [\<lparr>payload_size = 3, host = ''e'', uri = ''/'', payload = [2, 2, 2]\<rparr>,
                \<lparr>payload_size = 3, host = ''a'', uri = ''/'', payload = [1, 2, 3]\<rparr>],
        readcnt = 0, mutex_read = 1, mutex_write = 1\<rparr>, [0, 0, 0])"
  by (rule read_miss_leaves_cache_unchanged) simp_all


lemma search_from_find:
  "search_from bs i h u = Some j \<Longrightarrow>
   List.find (\<lambda>b. host b = h \<and> uri b = u) bs = Some (bs ! (j - i))"
proof (induction bs arbitrary: i)
  case Nil then show ?case by simp
next
  case (Cons b bs)
  show ?case
  proof (cases "host b = h \<and> uri b = u")
    case True with Cons.prems show ?thesis by simp
  next
    case False
    with Cons.prems have s: "search_from bs (Suc i) h u = Some j" by auto
    from search_from_bound[OF s] have "j - i = Suc (j - Suc i)" by arith
    with Cons.IH[OF s] False show ?thesis by auto
  qed
qed

lemma find_app:
  "List.find P (xs @ ys) = (case List.find P xs of None \<Rightarrow> List.find P ys | Some x \<Rightarrow> Some x)"
  by (induction xs) auto

lemma find_remove_other:
  assumes "i < length xs" "\<not> P (xs ! i)"
  shows "List.find P (take i xs @ drop (Suc i) xs) = List.find P xs"
proof -
  have "List.find P xs = List.find P (take i xs @ xs ! i # drop (Suc i) xs)"
    using id_take_nth_drop[OF assms(1)] by simp
  also have "\<dots> = List.find P (take i xs @ drop (Suc i) xs)"
    using assms(2) by (simp add: find_app split: option.splits)
  finally show ?thesis by simp
qed

lemma find_take:
  "List.find P (take k xs) = None \<or> List.find P (take k xs) = List.find P xs"
proof (induction xs arbitrary: k)
  case Nil show ?case by simp
next
  case (Cons x xs)
  show ?case using Cons.IH by (cases k) auto
qed

lemma distinct_move_front:
  assumes "i < length xs" "distinct (map f xs)"
  shows "distinct (map f (xs ! i # take i xs @ drop (Suc i) xs))"
proof -
  have "distinct (map f (take i xs @ xs ! i # drop (Suc i) xs))"
    using id_take_nth_drop[OF assms(1)] assms(2) by simp
  then show ?thesis by auto
qed

lemma read_cache_quiescent:
  assumes q: "quiescent c" and r: "read_cache (Some c) h u buffer = Inr (n, Some c', buffer')"
  shows "quiescent c' \<and>
     (case search_block c h u of
        None \<Rightarrow> root c' = root c \<and> n = - 1 \<and> buffer' = buffer
      | Some i \<Rightarrow> i < length (root c) \<and> host (root c ! i) = h \<and> uri (root c ! i) = u \<and>
          first_with_key h u c = Some (root c ! i) \<and>
          root c' = root c ! i # take i (root c) @ drop (Suc i) (root c) \<and>
          n = payload_size (root c ! i) \<and>
          memcpy_into buffer (payload (root c ! i)) (size_t_of_int n) = Inr buffer')"
proof (cases "search_block c h u")
  case None
  with r q show ?thesis by (auto simp: read_cache_quiescent_cases[OF q] quiescent_def)
next
  case (Some i)
  then have s: "search_from (root c) 0 h u = Some i" by (simp add: search_block_def)
  from search_from_bound[OF s] search_from_hit[OF s] search_from_find[OF s]
  have "i < length (root c)" "host (root c ! i) = h" "uri (root c ! i) = u"
    "first_with_key h u c = Some (root c ! i)"
    by (simp_all add: first_with_key_def)
  with r q Some show ?thesis
    by (auto simp: read_cache_quiescent_cases[OF q] quiescent_def split: sum.splits)
qed

lemma write_cache_quiescent:
  assumes q: "quiescent c" and w: "write_cache avail (Some c) h u buffer len = Inr (n, Some c')"
  shows "quiescent c' \<and>
     (\<exists>k. (n = - 1 \<and> root c' = take k (root c)) \<or>
          (n = 1 \<and> size_t_of_int len \<le> length buffer \<and>
           root c' = \<lparr>payload_size = len, host = h, uri = u,
                       payload = take (size_t_of_int len) buffer\<rparr> # take k (root c)))"
proof (cases "len > max_object_size c")
  case True
  with w q show ?thesis by (auto simp: write_cache_def intro: exI[of _ "length (root c)"])
next
  case False
  from q have p: "sem_P (mutex_write c) = Inr 0" by (simp add: quiescent_def sem_P_def)
  with w False obtain c1 where l: "evict_loop (c\<lparr>mutex_write := 0\<rparr>) len = Inr c1"
    by (auto simp: write_cache_def split: sum.splits)
  from evict_loop_result[of "c\<lparr>mutex_write := 0\<rparr>" len] l
  obtain k where c1: "c1 = c\<lparr>mutex_write := 0, root := take k (root c),
       space := space c + sum_list (map payload_size (drop k (root c)))\<rparr>"
    by (auto split: if_splits)
  from w False p l c1 q show ?thesis
    by (auto simp: write_cache_def create_block_def memcpy_from_def insert_block_def sem_V_def
          quiescent_def Let_def split: if_splits)
qed


lemma run_call_first_with_key:
  assumes q: "quiescent c"
    and f: "first_with_key h u c = None \<or> first_with_key h u c = Some bV"
    and nw: "\<not> is_write_to h u call"
    and r: "run_call (Some c) call = Inr my_cache'"
  shows "\<exists>c'. my_cache' = Some c' \<and> quiescent c' \<and>
           (first_with_key h u c' = None \<or> first_with_key h u c' = Some bV)"
proof (cases call)
  case (Read_call h' u' buffer)
  with r obtain n b where rd: "read_cache (Some c) h' u' buffer = Inr (n, my_cache', b)"
    by (auto split: sum.splits)
  from read_cache_handle[OF rd] obtain c' where c': "my_cache' = Some c'" by auto
  note rq = read_cache_quiescent[OF q rd[unfolded c']]
  show ?thesis
  proof (cases "search_block c h' u'")
    case None
    with rq f c' show ?thesis by (auto simp: first_with_key_def)
  next
    case (Some i)
    with rq have i: "i < length (root c)" and hi: "host (root c ! i) = h'" "uri (root c ! i) = u'"
      and fi: "first_with_key h' u' c = Some (root c ! i)"
      and rt: "root c' = root c ! i # take i (root c) @ drop (Suc i) (root c)"
      by auto
    have "first_with_key h u c' = first_with_key h u c"
    proof (cases "h' = h \<and> u' = u")
      case True
      with hi fi rt show ?thesis by (simp add: first_with_key_def)
    next
      case False
      with hi have np: "\<not> (host (root c ! i) = h \<and> uri (root c ! i) = u)" by auto
      from find_remove_other[OF i, of "\<lambda>b. host b = h \<and> uri b = u"] np
      have "List.find (\<lambda>b. host b = h \<and> uri b = u) (take i (root c) @ drop (Suc i) (root c))
          = List.find (\<lambda>b. host b = h \<and> uri b = u) (root c)" by blast
      with rt np show ?thesis
        by (auto simp: first_with_key_def)
    qed
    with rq f c' show ?thesis by auto
  qed
next
  case (Write_call avail h' u' buffer len)
  with nw have ne: "\<not> (h' = h \<and> u' = u)" by (simp add: is_write_to_def)
  from Write_call r obtain n where wr: "write_cache avail (Some c) h' u' buffer len = Inr (n, my_cache')"
    by (auto split: sum.splits)
  from write_cache_handle[OF wr] obtain c' where c': "my_cache' = Some c'" by auto
  from write_cache_quiescent[OF q wr[unfolded c']] obtain k where q': "quiescent c'"
    and rt: "root c' = take k (root c) \<or>
       root c' = \<lparr>payload_size = len, host = h', uri = u',
                       payload = take (size_t_of_int len) buffer\<rparr> # take k (root c)"
    by auto
  from rt ne have "first_with_key h u c' = List.find (\<lambda>b. host b = h \<and> uri b = u) (take k (root c))"
    by (auto simp: first_with_key_def)
  with find_take[of "\<lambda>b. host b = h \<and> uri b = u" k "root c"] f q' c' show ?thesis
    by (auto simp: first_with_key_def)
qed

lemma run_calls_first_with_key:
  assumes "quiescent c"
    and "first_with_key h u c = None \<or> first_with_key h u c = Some bV"
    and "\<forall>call \<in> set calls. \<not> is_write_to h u call"
    and "run_calls (Some c) calls = Inr (Some c')"
  shows "quiescent c' \<and> (first_with_key h u c' = None \<or> first_with_key h u c' = Some bV)"
  using assms
proof (induction calls arbitrary: c)
  case Nil then show ?case by simp
next
  case (Cons call calls)
  from Cons.prems(4) obtain mc where rc: "run_call (Some c) call = Inr mc"
    and rs: "run_calls mc calls = Inr (Some c')"
    by (auto split: sum.splits)
  from Cons.prems(3) have nw: "\<not> is_write_to h u call" by simp
  from run_call_first_with_key[OF Cons.prems(1) Cons.prems(2) nw rc]
  obtain c1 where c1: "mc = Some c1" "quiescent c1"
    "first_with_key h u c1 = None \<or> first_with_key h u c1 = Some bV" by auto
  from Cons.IH[OF c1(2) c1(3)] Cons.prems(3) rs c1(1) show ?case by simp
qed

text \<open>
  Claim C6.  Let \<open>write_cache\<close> of the payload \<open>V\<close> with length \<open>len\<close> under the key
  \<open>(h, u)\<close> succeed (return 1) on a quiescent cache, and let any calls follow that are not
  writes to the same key.  If the key is still found in the cache (the entry has not been
  evicted), \<open>read_cache\<close> of the key into a buffer of at least \<open>len\<close> bytes returns
  \<open>len\<close>, and the first \<open>len\<close> bytes of the buffer are the first \<open>len\<close> bytes of \<open>V\<close>.
\<close>

theorem write_then_read_returns_payload:
  assumes q: "quiescent c"
    and w: "write_cache avail (Some c) h u V len = Inr (1, Some c1)"
    and nw: "\<forall>call \<in> set calls. \<not> is_write_to h u call"
    and run: "run_calls (Some c1) calls = Inr (Some c2)"
    and present: "search_block c2 h u \<noteq> None"
    and buf: "size_t_of_int len \<le> length buffer"
  shows "\<exists>c3 buffer'. read_cache (Some c2) h u buffer = Inr (len, Some c3, buffer') \<and>
           take (size_t_of_int len) buffer' = take (size_t_of_int len) V"
proof -
  define bV where "bV = \<lparr>payload_size = len, host = h, uri = u, payload = take (size_t_of_int len) V\<rparr>"
  from write_cache_quiescent[OF q w] obtain k where q1: "quiescent c1"
    and lenV: "size_t_of_int len \<le> length V" and rt: "root c1 = bV # take k (root c)"
    by (auto simp: bV_def)
  from rt have f1: "first_with_key h u c1 = None \<or> first_with_key h u c1 = Some bV"
    by (simp add: first_with_key_def bV_def)
  from run_calls_first_with_key[OF q1 f1 nw run]
  have q2: "quiescent c2" and f2: "first_with_key h u c2 = None \<or> first_with_key h u c2 = Some bV"
    by auto
  from present obtain i where i: "search_block c2 h u = Some i" by auto
  then have "search_from (root c2) 0 h u = Some i" by (simp add: search_block_def)
  from search_from_find[OF this] f2 have bi: "root c2 ! i = bV"
    by (simp add: first_with_key_def)
  have m: "memcpy_into buffer (payload bV) (size_t_of_int (payload_size bV))
     = Inr (take (size_t_of_int len) V @ drop (size_t_of_int len) buffer)"
    using lenV buf by (simp add: memcpy_into_def bV_def)
  have "read_cache (Some c2) h u buffer =
     Inr (len, Some (c2\<lparr>root := bV # (take i (root c2) @ drop (Suc i) (root c2)),
                            space := space c2 + payload_size bV - payload_size bV\<rparr>),
          take (size_t_of_int len) V @ drop (size_t_of_int len) buffer)"
    using i bi m by (simp add: read_cache_quiescent_cases[OF q2] bV_def)
  moreover have "take (size_t_of_int len) (take (size_t_of_int len) V @ drop (size_t_of_int len) buffer)
     = take (size_t_of_int len) V"
    using lenV by simp
  ultimately show ?thesis by blast
qed


text \<open>
  A write of three bytes, then a write of another key, a hit and a third write; the
  entry is read back.
\<close>

theorem write_then_read_returns_payload_witness:
  "\<exists>c3 buffer'.
     read_cache
       (Some \<lparr>space = 5, max_object_size = 10,
          root = [\<lparr>payload_size = 1, host = ''c'', uri = ''/'', payload = [9]\<rparr>,
                  \<lparr>payload_size = 3, host = ''a'', uri = ''/'', payload = [1, 2, 3]\<rparr>,
                  \<lparr>payload_size = 1, host = ''b'', uri = ''/'', payload = [7]\<rparr>],
          readcnt = 0, mutex_read = 1, mutex_write = 1\<rparr>) ''a'' ''/'' [0, 0, 0, 0]
     = Inr (3, Some c3, buffer') \<and>
     take (size_t_of_int 3) buffer' = take (size_t_of_int 3) [1, 2, 3, 4]"
proof -
  let ?start = "\<lparr>space = 10, max_object_size = 10, root = [], readcnt = 0, mutex_read = 1,
             mutex_write = 1\<rparr>"
  let ?written = "\<lparr>space = 7, max_object_size = 10,
          root = [\<lparr>payload_size = 3, host = ''a'', uri = ''/'', payload = [1, 2, 3]\<rparr>],
          readcnt = 0, mutex_read = 1, mutex_write = 1\<rparr>"
  let ?later = "\<lparr>space = 5, max_object_size = 10,
          root = [\<lparr>payload_size = 1, host = ''c'', uri = ''/'', payload = [9]\<rparr>,
                  \<lparr>payload_size = 3, host = ''a'', uri = ''/'', payload = [1, 2, 3]\<rparr>,
                  \<lparr>payload_size = 1, host = ''b'', uri = ''/'', payload = [7]\<rparr>],
          readcnt = 0, mutex_read = 1, mutex_write = 1\<rparr>"
  let ?calls = "[Write_call all_available ''b'' ''/'' [7] 1, Read_call ''a'' ''/'' [0, 0, 0],
                 Write_call all_available ''c'' ''/'' [9] 1]"
  have q: "quiescent ?start" by (simp add: quiescent_def)
  have w: "write_cache all_available (Some ?start) ''a'' ''/'' [1, 2, 3, 4] 3 = Inr (1, Some ?written)"
    by (simp add: cache_eval_simps)
  have nw: "\<forall>call \<in> set ?calls. \<not> is_write_to ''a'' ''/'' call"
    by (simp add: is_write_to_def)
  have run: "run_calls (Some ?written) ?calls = Inr (Some ?later)"
    by (simp add: cache_eval_simps)
  have present: "search_block ?later ''a'' ''/'' \<noteq> None" by (simp add: search_block_def)
  have buf: "size_t_of_int 3 \<le> length [0 :: byte, 0, 0, 0]" by (simp add: size_t_of_int_def)
  from write_then_read_returns_payload[OF q w nw run present buf] show ?thesis .
qed

lemma run_calls_None: "run_calls None calls = Inr None"
proof (induction calls)
  case Nil show ?case by simp
next
  case (Cons call calls)
  then show ?case by (cases call) (simp_all add: read_cache_def write_cache_def)
qed

lemma run_calls_distinct_keys:
  assumes "quiescent c" "distinct (keys_of c)" "fresh_writes (Some c) calls"
    "run_calls (Some c) calls = Inr (Some c')"
  shows "distinct (keys_of c')"
  using assms
proof (induction calls arbitrary: c)
  case Nil then show ?case by simp
next
  case (Cons call calls)
  from Cons.prems(4) obtain mc where rc: "run_call (Some c) call = Inr mc"
    and rs: "run_calls mc calls = Inr (Some c')"
    by (auto split: sum.splits)
  from Cons.prems(3) rc have fr: "fresh_writes mc calls" by simp
  have "\<exists>c1. mc = Some c1 \<and> quiescent c1 \<and> distinct (keys_of c1)"
  proof (cases call)
    case (Read_call h u buffer)
    with rc obtain n b where rd: "read_cache (Some c) h u buffer = Inr (n, mc, b)"
      by (auto split: sum.splits)
    from read_cache_handle[OF rd] obtain c1 where c1: "mc = Some c1" by auto
    note rq = read_cache_quiescent[OF Cons.prems(1) rd[unfolded c1]]
    show ?thesis
    proof (cases "search_block c h u")
      case None
      with rq c1 Cons.prems(2) show ?thesis by (auto simp: keys_of_def)
    next
      case (Some i)
      with rq have i: "i < length (root c)"
        and rt: "root c1 = root c ! i # take i (root c) @ drop (Suc i) (root c)" by auto
      from distinct_move_front[OF i, of "\<lambda>b. (host b, uri b)"] Cons.prems(2) rt
      have "distinct (keys_of c1)" by (simp add: keys_of_def)
      with rq c1 show ?thesis by auto
    qed
  next
    case (Write_call avail h u buffer len)
    with Cons.prems(3) have miss: "search_block c h u = None" by simp
    from Write_call rc obtain n where wr: "write_cache avail (Some c) h u buffer len = Inr (n, mc)"
      by (auto split: sum.splits)
    from write_cache_handle[OF wr] obtain c1 where c1: "mc = Some c1" by auto
    from write_cache_quiescent[OF Cons.prems(1) wr[unfolded c1]] obtain k where q1: "quiescent c1"
      and rt: "root c1 = take k (root c) \<or>
         root c1 = \<lparr>payload_size = len, host = h, uri = u,
                       payload = take (size_t_of_int len) buffer\<rparr> # take k (root c)"
      by auto
    from miss have nk: "(h, u) \<notin> set (map (\<lambda>b. (host b, uri b)) (root c))"
      by (auto simp: search_block_def search_from_None)
    have dk: "distinct (map (\<lambda>b. (host b, uri b)) (take k (root c)))"
      using Cons.prems(2) by (simp add: keys_of_def take_map[symmetric] del: take_map)
    have "set (take k (root c)) \<subseteq> set (root c)" by (rule set_take_subset)
    with nk have "(h, u) \<notin> set (map (\<lambda>b. (host b, uri b)) (take k (root c)))" by auto
    with rt dk have "distinct (keys_of c1)" by (auto simp: keys_of_def)
    with q1 c1 show ?thesis by auto
  qed
  then obtain c1 where "mc = Some c1" "quiescent c1" "distinct (keys_of c1)" by auto
  with Cons.IH[of c1] fr rs show ?case by simp
qed

text \<open>
  Claim C4, as amended.  \<open>write_cache\<close> never searches for the key it writes: a
  successful write puts a new block with that key at the head, in front of what the
  eviction loop left of the list (second part).  So the keys of the blocks are pairwise
  distinct in every cache reached from \<open>init_cache\<close> by calls among which every
  \<open>write_cache\<close> is for a key that is absent at the time of the call (first part).
\<close>

theorem distinct_keys_when_writes_follow_misses:
  "(fresh_writes (init_cache avail0 max_cache_size input_max_object_size) calls \<longrightarrow>
    run_calls (init_cache avail0 max_cache_size input_max_object_size) calls = Inr (Some c) \<longrightarrow>
    distinct (keys_of c)) \<and>
   (write_cache avail (Some c0) h u buffer len = Inr (1, Some c1) \<longrightarrow>
    (\<exists>k b. root c1 = b # take k (root c0) \<and> host b = h \<and> uri b = u))"
proof (intro conjI impI)
  assume fr: "fresh_writes (init_cache avail0 max_cache_size input_max_object_size) calls"
    and run: "run_calls (init_cache avail0 max_cache_size input_max_object_size) calls = Inr (Some c)"
  show "distinct (keys_of c)"
  proof (cases avail0)
    case False
    with run show ?thesis by (simp add: init_cache_def run_calls_None)
  next
    case True
    let ?c = "\<lparr>space = max_cache_size, max_object_size = input_max_object_size,
                 root = [], readcnt = 0, mutex_read = 1, mutex_write = 1\<rparr>"
    have "quiescent ?c" "distinct (keys_of ?c)" by (simp_all add: quiescent_def keys_of_def)
    from run_calls_distinct_keys[OF this] fr run True show ?thesis by (simp add: init_cache_def)
  qed
next
  assume w: "write_cache avail (Some c0) h u buffer len = Inr (1, Some c1)"
  then have le: "\<not> len > max_object_size c0"
    by (auto simp: write_cache_def split: if_splits)
  with w obtain mw c' where l: "evict_loop (c0\<lparr>mutex_write := mw\<rparr>) len = Inr c'"
    and cb: "create_block avail h u buffer len \<noteq> Inr None"
    and c1: "\<And>b. create_block avail h u buffer len = Inr (Some b) \<Longrightarrow>
               c1 = (insert_block c' b)\<lparr>mutex_write := sem_V (mutex_write (insert_block c' b))\<rparr>"
    by (auto simp: write_cache_def Let_def split: sum.splits option.splits)
  from w le l obtain b where b: "create_block avail h u buffer len = Inr (Some b)"
    by (auto simp: write_cache_def Let_def split: sum.splits option.splits)
  from b have hb: "host b = h \<and> uri b = u"
    by (auto simp: create_block_def split: if_splits sum.splits)
  from evict_loop_result[of "c0\<lparr>mutex_write := mw\<rparr>" len] l
  obtain k where "root c' = take k (root c0)" by (auto split: if_splits)
  with c1[OF b] hb show "\<exists>k b. root c1 = b # take k (root c0) \<and> host b = h \<and> uri b = u"
    by (auto simp: insert_block_def)
qed

text \<open>
  The amended claim on a run in which every write follows a miss, and on a second write of
  a key that is already present.
\<close>

theorem distinct_keys_when_writes_follow_misses_witness:
  "distinct (keys_of
      \<lparr>space = 8, max_object_size = 10,
        root = [\<lparr>payload_size = 1, host = ''b'', uri = ''/'', payload = [2]\<rparr>,
                \<lparr>payload_size = 1, host = ''a'', uri = ''/'', payload = [1]\<rparr>],
        readcnt = 0, mutex_read = 1, mutex_write = 1\<rparr>) \<and>
   (\<exists>k b. root
        \<lparr>space = 8, max_object_size = 10,
          root = [\<lparr>payload_size = 1, host = ''a'', uri = ''/'', payload = [2]\<rparr>,
                  \<lparr>payload_size = 1, host = ''a'', uri = ''/'', payload = [1]\<rparr>],
          readcnt = 0, mutex_read = 1, mutex_write = 1\<rparr>
      = b # take k (root
        \<lparr>space = 9, max_object_size = 10,
          root = [\<lparr>payload_size = 1, host = ''a'', uri = ''/'', payload = [1]\<rparr>],
          readcnt = 0, mutex_read = 1, mutex_write = 1\<rparr>) \<and>
      host b = ''a'' \<and> uri b = ''/'')"
proof -
  let ?calls = "[Write_call all_available ''a'' ''/'' [1] 1, Read_call ''a'' ''/'' [0],
                 Write_call all_available ''b'' ''/'' [2] 1]"
  let ?final = "\<lparr>space = 8, max_object_size = 10,
        root = [\<lparr>payload_size = 1, host = ''b'', uri = ''/'', payload = [2]\<rparr>,
                \<lparr>payload_size = 1, host = ''a'', uri = ''/'', payload = [1]\<rparr>],
        readcnt = 0, mutex_read = 1, mutex_write = 1\<rparr>"
  let ?before = "\<lparr>space = 9, max_object_size = 10,
          root = [\<lparr>payload_size = 1, host = ''a'', uri = ''/'', payload = [1]\<rparr>],
          readcnt = 0, mutex_read = 1, mutex_write = 1\<rparr>"
  let ?after = "\<lparr>space = 8, max_object_size = 10,
          root = [\<lparr>payload_size = 1, host = ''a'', uri = ''/'', payload = [2]\<rparr>,
                  \<lparr>payload_size = 1, host = ''a'', uri = ''/'', payload = [1]\<rparr>],
          readcnt = 0, mutex_read = 1, mutex_write = 1\<rparr>"
  have fr: "fresh_writes (init_cache True 10 10) ?calls"
    by (simp add: cache_eval_simps)
  have run: "run_calls (init_cache True 10 10) ?calls = Inr (Some ?final)"
    by (simp add: cache_eval_simps)
  have w: "write_cache all_available (Some ?before) ''a'' ''/'' [2] 1 = Inr (1, Some ?after)"
    by (simp add: cache_eval_simps)
  from distinct_keys_when_writes_follow_misses
         [of True 10 10 ?calls ?final all_available ?before "''a''" "''/''" "[2]" 1 ?after]
       fr run w
  show ?thesis by blast
qed

text \<open>
  Claim C4 as stated fails: two successful writes of the same key, with room for both,
  leave two blocks with that key in the list.
\<close>

theorem duplicate_key_counterexample:
  "run_calls (init_cache True 10 10)
     [Write_call all_available ''a'' ''/'' [1] 1, Write_call all_available ''a'' ''/'' [2] 1]
   = Inr (Some \<lparr>space = 8, max_object_size = 10,
            root = [\<lparr>payload_size = 1, host = ''a'', uri = ''/'', payload = [2]\<rparr>,
                    \<lparr>payload_size = 1, host = ''a'', uri = ''/'', payload = [1]\<rparr>],
            readcnt = 0, mutex_read = 1, mutex_write = 1\<rparr>)
   \<and> \<not> distinct (keys_of \<lparr>space = 8, max_object_size = 10,
            root = [\<lparr>payload_size = 1, host = ''a'', uri = ''/'', payload = [2]\<rparr>,
                    \<lparr>payload_size = 1, host = ''a'', uri = ''/'', payload = [1]\<rparr>],
            readcnt = 0, mutex_read = 1, mutex_write = 1\<rparr>)"
  by (simp add: cache_eval_simps keys_of_def)

section \<open>Properties of the allocator\<close>

lemmas mm_eval_simps =
  fresh_heap_def store_bytes_def GETW_def PUTW_def GETD_def PUTD_def ALIGN_def PACK_def
  GET_SIZE_def GET_ALLOC_def HDRP_def FTRP_def NEXT_BLKP_def PREV_BLKP_def NEXT_FREE_BLKP_def
  PREV_FREE_BLKP_def SET_NEXT_FREE_BLKP_def SET_PREV_FREE_BLKP_def LIST_def GET_LISTP_def
  SET_LISTP_def mem_sbrk_def mem_heap_lo_def mem_heap_hi_def get_list_index_def
  insert_free_block_def remove_free_block_def coalesce_def place_def extend_heap_def
  find_fit_list.simps find_fit_lists.simps find_fit_def init_roots.simps mm_init_def
  mm_malloc_def mm_free_def copy_bytes_def fill_bytes_def memcpy_def memset_def mm_realloc_def mm_calloc_def in_heap_def
  check_block_def check_coalesce_def Let_def

lemmas mm_eval_congs = let_weak_cong prod.case_cong_weak option.case_cong_weak sum.case_cong_weak

subsection \<open>Requests whose size wraps around, and \<open>calloc\<close> without memory\<close>

text \<open>
  Claim C2 (\<open>calloc\<close> returns null when the allocation fails) does not hold of the code.
  On a heap of 288 bytes that cannot grow, \<open>mm_init\<close> takes all of it; the \<open>malloc\<close> of 200
  bytes inside \<open>calloc\<close> finds no fit, cannot extend the heap and returns \<open>NULL\<close>; \<open>calloc\<close>
  then calls \<open>memset\<close> on \<open>NULL\<close> for 200 bytes.
\<close>

theorem calloc_out_of_memory_null_access:
  "map_option snd (mm_malloc (fresh_heap 4096 288) 200) = Some 0 \<and>
   mm_calloc (fresh_heap 4096 288) 1 200 = Some (Inl NullAccess)"
  by (simp add: mm_eval_simps cong: mm_eval_congs)

text \<open>
  Claim C5 (every block on the heap walk has size at least 24) does not hold of the code.
  \<open>malloc\<close> rounds the request up with \<open>size + 15\<close> in \<open>size_t\<close>; for the request
  \<open>2^64 - 1\<close> the sum wraps around and the adjusted size is 8.  On the heap left by
  \<open>mm_init\<close> (one free block of 168 bytes at 4216) the call succeeds and returns 4216, the
  first block of the heap walk, whose header and footer now say size 8, allocated; the
  checker's \<open>check_block\<close> reports the block.
\<close>

theorem malloc_wrapped_size_block_too_small:
  "(case mm_malloc (fresh_heap 4096 100000) (2 ^ 64 - 1) of
      None \<Rightarrow> False
    | Some (s, p) \<Rightarrow>
        p = 4216 \<and> p = heap_listp s + 8 \<and>
        GET_SIZE s (HDRP p) = 8 \<and> GET_ALLOC s (HDRP p) = 1 \<and>
        GETW s (HDRP p) = GETW s (FTRP s p) \<and>
        NEXT_BLKP s p = 4224 \<and> GET_SIZE s (HDRP (NEXT_BLKP s p)) = 160 \<and>
        check_block s p = 1)"
proof -
  have e: "mm_malloc (fresh_heap 4096 100000) (2 ^ 64 - 1) =
      Some (\<lparr>mem = store_bytes (store_bytes (store_bytes (store_bytes (store_bytes
        (store_bytes (store_bytes (store_bytes (store_bytes (store_bytes (store_bytes
        (store_bytes (store_bytes (store_bytes (store_bytes (store_bytes (store_bytes
        (store_bytes (store_bytes (store_bytes (store_bytes (store_bytes (store_bytes
        (store_bytes (store_bytes (store_bytes (store_bytes (store_bytes (store_bytes
        (store_bytes (store_bytes (\<lambda>a. 0) 4200 4 0) 4204 4 9) 4208 4 9) 4212 4 1) 4096
        8 0) 4104 8 0) 4112 8 0) 4120 8 0) 4128 8 0) 4136 8 0) 4144 8 0) 4152 8 0) 4160 8 0)
        4168 8 0) 4176 8 0) 4184 8 0) 4192 8 0) 4212 4 168) 4376 4 168) 4380 4 1) 4120 8 4216)
        4224 8 0) 4216 8 0) 4120 8 0) 4212 4 9) 4216 4 9) 4220 4 160) 4376 4 160) 4120 8 4224)
        4232 8 0) 4224 8 0, mem_start_brk = 4096, mem_brk = 4384, mem_max_addr = 104096,
        heap_listp = 4208, origin = 4096\<rparr>, 4216)"
    by (simp add: mm_eval_simps cong: mm_eval_congs)
  show ?thesis
    apply (simp only: e option.case prod.case)
    apply (simp add: mm_eval_simps cong: mm_eval_congs)
    done
qed

text \<open>
  Claim C7 (a successful \<open>realloc\<close> preserves the first \<open>min (o - 8) n\<close> payload bytes) does
  not hold of the code.  \<open>realloc\<close> rounds the request up with \<open>ALIGN(size) + 8\<close> in
  \<open>size_t\<close>; for \<open>n = 2^64 - 1\<close> this is 8.  A block of size 32 (from \<open>malloc(24)\<close>) whose 24
  payload bytes are all \<open>0xFF\<close> is then shrunk in place to a block of size 8: \<open>realloc\<close>
  returns the old pointer, and the first bytes of the payload hold the new footer and the
  header of the free remainder.
\<close>

theorem realloc_wrapped_size_overwrites_payload:
  "(case mm_malloc (fresh_heap 4096 100000) 24 of
      None \<Rightarrow> False
    | Some (s0, p) \<Rightarrow>
        p = 4216 \<and> GET_SIZE s0 (HDRP p) = 32 \<and> GET_ALLOC s0 (HDRP p) = 1 \<and>
        (case memset s0 p 255 24 of
           Inl e \<Rightarrow> False
         | Inr s1 \<Rightarrow>
             map (mem s1) [p, p + 1, p + 2, p + 3, p + 4, p + 5, p + 6, p + 7]
               = [255, 255, 255, 255, 255, 255, 255, 255] \<and>
             (case mm_realloc s1 p (2 ^ 64 - 1) of
                None \<Rightarrow> False
              | Some (s2, q) \<Rightarrow>
                  q = p \<and> GET_SIZE s2 (HDRP q) = 8 \<and>
                  map (mem s2) [q, q + 1, q + 2, q + 3, q + 4, q + 5, q + 6, q + 7]
                    = [9, 0, 0, 0, 160, 0, 0, 0])))"
  by (simp add: mm_eval_simps cong: mm_eval_congs)
subsection \<open>\<open>realloc\<close> growing a block\<close>

subsection \<open>Loads and stores\<close>

lemma store_bytes_outside: "a < p \<or> p + n \<le> a \<Longrightarrow> store_bytes m p n v a = m a"
  by (auto simp: store_bytes_def)

lemma store_bytes_inside: "i < n \<Longrightarrow> store_bytes m p n v (p + i) = ucast (drop_bit (8 * i) v)"
  by (simp add: store_bytes_def)

lemma store_bytes_base: "0 < n \<Longrightarrow> store_bytes m p n v p = ucast v"
  by (simp add: store_bytes_def)






lemma frame_PUTW: "frame {p..<p + 4} s (PUTW s p v)"
  by (auto simp: frame_def PUTW_def store_bytes_def)

lemma frame_PUTD: "frame {p..<p + 8} s (PUTD s p v)"
  by (auto simp: frame_def PUTD_def store_bytes_def)

lemma frame_fields:
  "frame W s s' \<Longrightarrow> mem_brk s' = mem_brk s \<and> heap_listp s' = heap_listp s \<and> origin s' = origin s"
  by (simp add: frame_def)

lemma frame_GETW: "frame W s s' \<Longrightarrow> {q..<q + 4} \<inter> W = {} \<Longrightarrow> GETW s' q = GETW s q"
proof -
  assume f: "frame W s s'" and d: "{q..<q + 4} \<inter> W = {}"
  have "\<And>i. i < 4 \<Longrightarrow> mem s' (q + i) = mem s (q + i)"
  proof -
    fix i :: nat assume "i < 4"
    then have "q + i \<in> {q..<q + 4}" by simp
    with d have "q + i \<notin> W" by blast
    with f show "mem s' (q + i) = mem s (q + i)" by (simp add: frame_def)
  qed
  from this[of 0] this[of 1] this[of 2] this[of 3] show ?thesis by (simp add: GETW_def)
qed

lemma frame_GETD: "frame W s s' \<Longrightarrow> {q..<q + 8} \<inter> W = {} \<Longrightarrow> GETD s' q = GETD s q"
proof -
  assume f: "frame W s s'" and d: "{q..<q + 8} \<inter> W = {}"
  have "\<And>i. i < 8 \<Longrightarrow> mem s' (q + i) = mem s (q + i)"
  proof -
    fix i :: nat assume "i < 8"
    then have "q + i \<in> {q..<q + 8}" by simp
    with d have "q + i \<notin> W" by blast
    with f show "mem s' (q + i) = mem s (q + i)" by (simp add: frame_def)
  qed
  from this[of 0] this[of 1] this[of 2] this[of 3] this[of 4] this[of 5] this[of 6] this[of 7]
  show ?thesis by (simp add: GETD_def)
qed


lemma GETW_PUTD_other: "q + 4 \<le> p \<or> p + 8 \<le> q \<Longrightarrow> GETW (PUTD s p v) q = GETW s q"
  by (rule frame_GETW[OF frame_PUTD]) auto


lemma GETD_PUTW_other: "q + 8 \<le> p \<or> p + 4 \<le> q \<Longrightarrow> GETD (PUTW s p v) q = GETD s q"
  by (rule frame_GETD[OF frame_PUTW]) auto

lemma PUTW_fields [simp]:
  "mem_start_brk (PUTW s p v) = mem_start_brk s" "mem_brk (PUTW s p v) = mem_brk s"
  "mem_max_addr (PUTW s p v) = mem_max_addr s" "heap_listp (PUTW s p v) = heap_listp s"
  "origin (PUTW s p v) = origin s"
  by (simp_all add: PUTW_def)

lemma PUTD_fields [simp]:
  "mem_start_brk (PUTD s p v) = mem_start_brk s" "mem_brk (PUTD s p v) = mem_brk s"
  "mem_max_addr (PUTD s p v) = mem_max_addr s" "heap_listp (PUTD s p v) = heap_listp s"
  "origin (PUTD s p v) = origin s"
  by (simp_all add: PUTD_def)

subsection \<open>Headers\<close>




subsection \<open>The heap walk\<close>










subsection \<open>The class lists\<close>



lemma chain_nonzero: "chain s prev cur xs \<Longrightarrow> x \<in> set xs \<Longrightarrow> x \<noteq> 0"
  by (induction xs arbitrary: prev cur) auto



















lemma ucast_64_32: "(ucast (w :: 64 word) :: 32 word) = word_of_nat (unat w)"
  by (rule bit_word_eqI) (auto simp: bit_simps)






















subsection \<open>The size rounding\<close>







subsection \<open>Growing the heap\<close>






lemma extend_size:
  fixes words :: "64 word"
  assumes sz0_def: "sz0 = (if words mod 2 \<noteq> 0 then (words + 1) * 4 else words * 4)"
  shows "24 \<le> unat (if sz0 < 24 then 24 else sz0) \<and> unat (if sz0 < 24 then 24 else sz0) mod 8 = 0"
proof -
  have d: "(8::nat) dvd 2 ^ 64" by simp
  have d2: "(2::nat) dvd 2 ^ 64" by simp
  have "8 dvd unat sz0"
  proof (cases "words mod 2 \<noteq> 0")
    case True
    then have "unat (words mod 2) \<noteq> 0" by (simp add: unat_eq_zero)
    then have odd: "unat words mod 2 = 1" by (simp add: unat_mod)
    have "unat ((words + 1) * 4) = unat (words + 1) * unat (4 :: 64 word) mod 2 ^ LENGTH(64)"
      by (simp only: unat_word_ariths(2))
    moreover have "unat (words + 1) = (unat words + unat (1 :: 64 word)) mod 2 ^ LENGTH(64)"
      by (simp only: unat_word_ariths(1))
    moreover have "sz0 = (words + 1) * 4" unfolding sz0_def using True by (rule if_P)
    ultimately have "unat sz0 = ((unat words + 1) mod 2 ^ 64 * 4) mod 2 ^ 64"
      by simp
    moreover have "2 dvd unat words + 1" using odd by presburger
    then have "2 dvd (unat words + 1) mod 2 ^ 64" by (simp only: dvd_mod_iff[OF d2])
    then have "8 dvd (unat words + 1) mod 2 ^ 64 * 4" by (auto elim!: dvdE)
    ultimately show ?thesis by (simp only: dvd_mod_iff[OF d])
  next
    case False
    then have "unat (words mod 2) = 0" by simp
    then have ev: "unat words mod 2 = 0" by (simp add: unat_mod)
    have "unat sz0 = (unat words * 4) mod 2 ^ 64"
      using False by (simp add: sz0_def unat_word_ariths)
    moreover from ev have "2 dvd unat words" by presburger
    then have "8 dvd unat words * 4" by (auto elim!: dvdE)
    ultimately show ?thesis by (simp only: dvd_mod_iff[OF d])
  qed
  then have "unat sz0 mod 8 = 0" by presburger
  then show ?thesis by (auto simp: word_less_nat_alt)
qed













end
